theory Spec2Isabelle
  imports Complex_Main
begin

section \<open>Data model of \<open>meta_off_policy_algorithm.py\<close>\<close>

text \<open>
  Observations, actions and the \<open>infos\<close> dictionaries are opaque values handed between the
  collaborators; the control flow never inspects them.  Buffers are Python objects, so the
  pools hold references (addresses into a heap of buffers).
\<close>

type_synonym obs = int
type_synonym act = int
type_synonym info = int
type_synonym addr = nat
type_synonym context_batch = "int list"

text \<open>A Python number that may be \<open>np.inf\<close> (the quotas of \<open>obtain_samples\<close>).\<close>

datatype pynum = Fin int | Inf

fun py_lt :: "pynum \<Rightarrow> pynum \<Rightarrow> bool" where
  "py_lt (Fin a) (Fin b) = (a < b)"
| "py_lt (Fin a) Inf = True"
| "py_lt Inf b = False"

text \<open>What a hook call does: it raises, or it returns a Python value.\<close>

datatype pyval = PyNone | PyFalse | PyTrue | PyObject bool

datatype 'a outcome = Raises | Returns 'a

datatype error =
    BothQuotasInfinite
  | NotAVecEnv
  | NotSingleEnv
  | ZeroDivisionError
  | ValueError
  | IndexError
  | AttributeError
  | HookRaised

record transition =
  t_obs :: obs
  t_next_obs :: obs
  t_action :: act
  t_reward :: real
  t_done :: bool
  t_infos :: info

subsection \<open>The replay buffer collaborator\<close>

text \<open>
  Modelled from the spec: the class \<open>ReplayBuffer\<close> of \<open>stable_baselines3.common.buffers\<close>
  is imported, not defined, by the source file.  The spec describes it as a fixed-capacity
  circular store of transitions with \<open>add\<close>, \<open>reset\<close> and capacity/position introspection,
  whose overflow policy is circular overwrite.
\<close>

record rb =
  rb_buffer_size :: nat
  rb_pos :: nat
  rb_full :: bool
  rb_store :: "transition option list"

definition ReplayBuffer :: "nat \<Rightarrow> rb" where
  "ReplayBuffer n = \<lparr>rb_buffer_size = n, rb_pos = 0, rb_full = False, rb_store = replicate n None\<rparr>"

definition rb_add :: "transition \<Rightarrow> rb \<Rightarrow> rb" where
  "rb_add t b =
     (let st = (rb_store b)[rb_pos b := Some t];
          p = rb_pos b + 1
      in if p = rb_buffer_size b
         then b\<lparr>rb_store := st, rb_pos := 0, rb_full := True\<rparr>
         else b\<lparr>rb_store := st, rb_pos := p\<rparr>)"

definition rb_reset :: "rb \<Rightarrow> rb" where
  "rb_reset b = b\<lparr>rb_pos := 0, rb_full := False\<rparr>"

definition rb_stored :: "rb \<Rightarrow> nat" where
  "rb_stored b = (if rb_full b then rb_buffer_size b else rb_pos b)"

subsection \<open>Calls on the collaborators, in the order they happen\<close>

datatype event =
    EnvReset
  | EnvStep act
  | EnvResetTask int
  | GetAction obs
  | ActorResetNoise
  | UpdateContext
  | SetStandardPrior
  | ClearContext
  | ClearZ
  | SampleZ
  | SampleContext int
  | InferPosterior context_batch
  | OnRolloutStart
  | UpdateLocals
  | OnStep
  | OnRolloutEnd
  | OnTrainingStart
  | OnTrainingEnd
  | UpdateInfoBuffer
  | BufAdd addr transition
  | BufReset addr
  | ActionNoiseReset
  | DumpLogs
  | RandInt int
  | RandChoice int int
  | DoTraining "int list"

text \<open>
  The collaborators are deterministic: what each call answers is a function of the calls
  made so far, the call itself (with its arguments) included.  Calls on the environment,
  the actor and the random generator are taken to return; the hooks that the source wraps
  in \<open>try\<close> may raise.  \<open>env_is_vec\<close> and \<open>env_num_envs\<close> are what the two assertions of
  \<open>collect_rollouts\<close> read.  The hooks \<open>on_training_start\<close> and \<open>on_training_end\<close> are
  called by \<open>learn\<close> outside any \<open>try\<close>: they raise like the others (for the default
  \<open>callback=None\<close> every hook call raises \<open>AttributeError\<close>), and then \<open>learn\<close> raises.
\<close>

record collab =
  env_is_vec :: bool
  env_num_envs :: nat
  env_reset_res :: "event list \<Rightarrow> obs"
  env_step_res :: "event list \<Rightarrow> obs \<times> real \<times> bool \<times> info"
  get_action_res :: "event list \<Rightarrow> act"
  on_rollout_start_res :: "event list \<Rightarrow> unit outcome"
  update_locals_res :: "event list \<Rightarrow> unit outcome"
  on_step_res :: "event list \<Rightarrow> pyval outcome"
  on_rollout_end_res :: "event list \<Rightarrow> unit outcome"
  on_training_start_res :: "event list \<Rightarrow> unit outcome"
  on_training_end_res :: "event list \<Rightarrow> unit outcome"
  sample_context_res :: "event list \<Rightarrow> context_batch"
  randint_res :: "event list \<Rightarrow> int"
  choice_res :: "event list \<Rightarrow> int list"

subsection \<open>The algorithm object\<close>

record state =
  buffer_size :: nat
  n_traintasks :: int
  n_evaltasks :: int
  use_sde :: bool
  sde_sample_freq :: int
  has_action_noise :: bool
  has_logger :: bool
  optimize_memory_usage :: bool
  self_replay_buffer :: "addr option"
  last_obs :: "obs option"
  num_timesteps :: int
  episode_num :: int
  n_env_steps_total :: int
  n_train_steps_total :: int
  initial_experience :: bool
  task_idx :: int
  heap :: "rb list"
  RBList_replay :: "addr option list"
  RBList_encoder :: "addr option list"
  RBList_eval :: "addr option list"
  JUST_EVAL :: "addr option"
  num_initial_steps :: int
  num_train_steps_per_itr :: int
  num_steps_prior :: int
  num_steps_posterior :: int
  num_extra_rl_steps_posterior :: int
  update_post_train :: int
  num_tasks_sample :: int
  max_path_length :: int
  meta_batch :: int
  trace :: "event list"

definition log :: "event \<Rightarrow> state \<Rightarrow> state" where
  "log e s = s\<lparr>trace := trace s @ [e]\<rparr>"

text \<open>Python's \<open>range(n)\<close> for an integer \<open>n\<close>.\<close>

definition range :: "int \<Rightarrow> nat list" where
  "range n = [0..<nat n]"

section \<open>Buffer pools: \<open>_setup_model\<close> and \<open>reset_buffers\<close>\<close>

text \<open>
  \<open>for i in idxs: pool[i] = ReplayBuffer(buffer_size, ...)\<close>: each pass constructs a new
  object (a new address) and stores the reference; the store raises \<open>IndexError\<close> when the
  list is too short.
\<close>

fun fill_slots :: "nat list \<Rightarrow> nat \<Rightarrow> addr option list \<Rightarrow> rb list \<Rightarrow> error + (addr option list \<times> rb list)" where
  "fill_slots [] n pool h = Inr (pool, h)"
| "fill_slots (i # idxs) n pool h =
     (let a = length h; h' = h @ [ReplayBuffer n]
      in if i < length pool then fill_slots idxs n (pool[i := Some a]) h' else Inl IndexError)"

definition setup_model :: "state \<Rightarrow> error + state" where
  "setup_model s =
     (case fill_slots (range (n_traintasks s)) (buffer_size s)
             (replicate (nat (n_traintasks s)) None) (heap s) of
        Inl e \<Rightarrow> Inl e
      | Inr (rp, h1) \<Rightarrow>
     (case fill_slots (range (n_traintasks s)) (buffer_size s)
             (replicate (nat (n_traintasks s)) None) h1 of
        Inl e \<Rightarrow> Inl e
      | Inr (en, h2) \<Rightarrow>
     (case fill_slots (range (n_evaltasks s)) (buffer_size s)
             (replicate (nat (n_evaltasks s)) None) h2 of
        Inl e \<Rightarrow> Inl e
      | Inr (ev, h3) \<Rightarrow>
          Inr (s\<lparr>RBList_replay := rp, RBList_encoder := en, RBList_eval := ev,
                 num_initial_steps := 10 * 100,
                 num_train_steps_per_itr := 2000,
                 num_steps_prior := 2 * 100,
                 num_steps_posterior := 0,
                 num_extra_rl_steps_posterior := 3 * 100,
                 update_post_train := 1,
                 num_tasks_sample := 5,
                 max_path_length := 100,
                 meta_batch := 16,
                 n_train_steps_total := 0,
                 JUST_EVAL := Some (length h3),
                 heap := h3 @ [ReplayBuffer (buffer_size s)]\<rparr>))))"

definition reset_buffers :: "state \<Rightarrow> error + state" where
  "reset_buffers s =
     (case fill_slots (range (n_traintasks s)) (buffer_size s) (RBList_replay s) (heap s) of
        Inl e \<Rightarrow> Inl e
      | Inr (rp, h1) \<Rightarrow>
     (case fill_slots (range (n_traintasks s)) (buffer_size s) (RBList_encoder s) h1 of
        Inl e \<Rightarrow> Inl e
      | Inr (en, h2) \<Rightarrow>
     (case fill_slots (range (n_evaltasks s)) (buffer_size s) (RBList_eval s) h2 of
        Inl e \<Rightarrow> Inl e
      | Inr (ev, h3) \<Rightarrow>
          Inr (s\<lparr>RBList_replay := rp, RBList_encoder := en, RBList_eval := ev, heap := h3\<rparr>))))"

text \<open>Mutating the buffer object behind a reference.\<close>

definition buf_add :: "addr \<Rightarrow> transition \<Rightarrow> state \<Rightarrow> state" where
  "buf_add a t s = log (BufAdd a t) (s\<lparr>heap := (heap s)[a := rb_add t (heap s ! a)]\<rparr>)"

definition buf_reset :: "addr \<Rightarrow> state \<Rightarrow> state" where
  "buf_reset a s = log (BufReset a) (s\<lparr>heap := (heap s)[a := rb_reset (heap s ! a)]\<rparr>)"

text \<open>All references held by the three pools, pool after pool.\<close>

definition pool_refs :: "state \<Rightarrow> addr option list" where
  "pool_refs s = RBList_replay s @ RBList_encoder s @ RBList_eval s"

section \<open>The rollout collector: \<open>collect_rollouts\<close>\<close>

text \<open>
  Modelled from the spec: \<open>RolloutReturn\<close> is imported from \<open>type_aliases\<close>; the spec gives
  it as the snapshot \<open>(mean_reward, total_steps, total_episodes, continue_training)\<close>.
\<close>

record RolloutReturn =
  rr_mean_reward :: real
  rr_total_steps :: int
  rr_total_episodes :: int
  rr_continue_training :: bool

text \<open>The local variables of \<open>collect_rollouts\<close> that outlive one loop pass.\<close>

record frame =
  cur_o :: obs
  total_steps :: int
  total_episodes :: int
  episode_rewards :: "real list"
  total_timesteps :: "int list"
  episode_reward :: real
  episode_timesteps :: int
  is_done :: bool

text \<open>How a pass through the loop body, or a whole loop, ends.\<close>

datatype flow =
    Cancelled RolloutReturn
  | Raised error
  | Broke frame
  | Fell frame

text \<open>How the outer loop of \<open>collect_rollouts\<close> is left.\<close>

datatype exit =
    Returned RolloutReturn
  | Threw error
  | Finished frame

type_synonym 'a result = "(error + 'a) \<times> state"

definition mean :: "real list \<Rightarrow> real" where
  "mean xs = sum_list xs / real (length xs)"

text \<open>\<open>for RB in replay_buffer: RB.add(...)\<close>; a \<open>None\<close> in the list has no \<open>add\<close>.\<close>

fun store_all :: "addr option list \<Rightarrow> transition \<Rightarrow> state \<Rightarrow> unit result" where
  "store_all [] t s = (Inr (), s)"
| "store_all (None # rbs) t s = (Inl AttributeError, s)"
| "store_all (Some a # rbs) t s = store_all rbs t (buf_add a t s)"

text \<open>
  The \<open>try\<close> block around the per-step hooks.  The result says whether the rollout is
  cancelled: only when \<open>on_step()\<close> is reached, returns, and its value is \<open>False\<close> itself.
  Anything raised inside the block is dropped by the bare \<open>except: pass\<close>.
\<close>

definition step_hooks :: "collab \<Rightarrow> state \<Rightarrow> bool \<times> state" where
  "step_hooks M s =
     (let s1 = log UpdateLocals s
      in case update_locals_res M (trace s1) of
           Raises \<Rightarrow> (False, s1)
         | Returns u \<Rightarrow>
             (let s2 = log OnStep s1
              in case on_step_res M (trace s2) of
                   Raises \<Rightarrow> (False, s2)
                 | Returns v \<Rightarrow> (v = PyFalse, s2)))"

text \<open>
  Choosing the action and stepping the environment (source lines 727 to 746), up to
  \<open>self.num_timesteps += 1\<close>.
\<close>

definition take_action ::
  "collab \<Rightarrow> bool \<Rightarrow> frame \<Rightarrow> state \<Rightarrow> (act \<times> obs \<times> real \<times> bool \<times> info) \<times> state" where
  "take_action M accum_context L s =
     (let s1 = (if use_sde s \<and> sde_sample_freq s > 0 \<and> total_steps L mod sde_sample_freq s = 0
                then log ActorResetNoise s else s);
          s2 = log (GetAction (cur_o L)) s1;
          a = get_action_res M (trace s2);
          s3 = log (EnvStep a) s2;
          s4 = (if accum_context then log UpdateContext s3 else s3)
      in case env_step_res M (trace s3) of
           (next_o, reward, d, infos) \<Rightarrow>
             ((a, next_o, reward, d, infos), s4\<lparr>num_timesteps := num_timesteps s4 + 1\<rparr>))"

text \<open>\<open>if replay_buffer is not None: for RB in replay_buffer: RB.add(...)\<close> (lines 765 to 767).\<close>

definition write_buffers :: "addr option list option \<Rightarrow> transition \<Rightarrow> state \<Rightarrow> unit result" where
  "write_buffers replay_buffer t s =
     (case replay_buffer of None \<Rightarrow> (Inr (), s) | Some rbs \<Rightarrow> store_all rbs t s)"

text \<open>The truncation test \<open>if 0 < n_steps <= total_steps\<close> that ends the pass (lines 780 to 785).\<close>

definition check_truncation :: "int \<Rightarrow> frame \<Rightarrow> state \<Rightarrow> flow \<times> state" where
  "check_truncation n_steps L s =
     (if 0 < n_steps \<and> n_steps \<le> total_steps L
      then (Broke (L\<lparr>total_episodes := total_episodes L + 1,
                     episode_rewards := episode_rewards L @ [episode_reward L],
                     total_timesteps := total_timesteps L @ [episode_timesteps L]\<rparr>),
            s\<lparr>episode_num := episode_num s + 1\<rparr>)
      else (Fell L, s))"

text \<open>One pass through the body of \<open>while not done\<close> (source lines 727 to 785).\<close>

definition rollout_body ::
  "collab \<Rightarrow> int \<Rightarrow> addr option list option \<Rightarrow> bool \<Rightarrow> frame \<Rightarrow> state \<Rightarrow> flow \<times> state" where
  "rollout_body M n_steps replay_buffer accum_context L s =
     (case take_action M accum_context L s of
        ((a, next_o, reward, d, infos), s5) \<Rightarrow>
          (let L1 = L\<lparr>episode_timesteps := episode_timesteps L + 1,
                      total_steps := total_steps L + 1, is_done := d\<rparr>
           in case step_hooks M s5 of
                (cancel, s6) \<Rightarrow>
                  if cancel
                  then (Cancelled \<lparr>rr_mean_reward = 0, rr_total_steps = total_steps L1,
                          rr_total_episodes = total_episodes L1, rr_continue_training = False\<rparr>, s6)
                  else
                   (case write_buffers replay_buffer
                           \<lparr>t_obs = cur_o L, t_next_obs = next_o, t_action = a, t_reward = reward,
                            t_done = d, t_infos = infos\<rparr>
                           (log UpdateInfoBuffer s6) of
                      (Inl e, s8) \<Rightarrow> (Raised e, s8)
                    | (Inr u, s8) \<Rightarrow>
                        check_truncation n_steps
                          (L1\<lparr>episode_reward := episode_reward L1 + reward, cur_o := next_o\<rparr>) s8)))"

text \<open>\<open>while not done: ...\<close>, left by \<open>break\<close>, by \<open>return\<close>, by an exception or by \<open>done\<close>.\<close>

partial_function (option) inner_loop ::
  "collab \<Rightarrow> int \<Rightarrow> addr option list option \<Rightarrow> bool \<Rightarrow> frame \<Rightarrow> state \<Rightarrow> (flow \<times> state) option" where
  [code]: "inner_loop M n_steps replay_buffer accum_context L s =
     (if \<not> is_done L
      then (case rollout_body M n_steps replay_buffer accum_context L s of
              (Fell L', s') \<Rightarrow> inner_loop M n_steps replay_buffer accum_context L' s'
            | (Cancelled r, s') \<Rightarrow> Some (Cancelled r, s')
            | (Raised e, s') \<Rightarrow> Some (Raised e, s')
            | (Broke L', s') \<Rightarrow> Some (Broke L', s'))
      else Some (Fell L, s))"

text \<open>The \<open>if done:\<close> block after the inner loop (source lines 787 to 800).\<close>

definition episode_done :: "bool \<Rightarrow> frame \<Rightarrow> state \<Rightarrow> frame \<times> state" where
  "episode_done action_noise L s =
     (if is_done L
      then (let L' = L\<lparr>total_episodes := total_episodes L + 1,
                        episode_rewards := episode_rewards L @ [episode_reward L],
                        total_timesteps := total_timesteps L @ [episode_timesteps L]\<rparr>;
                s1 = s\<lparr>episode_num := episode_num s + 1\<rparr>;
                s2 = (if action_noise then log ActionNoiseReset s1 else s1);
                s3 = (if has_logger s2 then log DumpLogs s2 else s2)
            in (L', s3))
      else (L, s))"

partial_function (option) outer_loop ::
  "collab \<Rightarrow> int \<Rightarrow> int \<Rightarrow> bool \<Rightarrow> addr option list option \<Rightarrow> bool \<Rightarrow> frame \<Rightarrow> state
     \<Rightarrow> (exit \<times> state) option" where
  [code]: "outer_loop M n_episodes n_steps action_noise replay_buffer accum_context L s =
     (if total_steps L < n_steps \<and> total_episodes L < n_episodes
      then (case inner_loop M n_steps replay_buffer accum_context
                   (L\<lparr>is_done := False, episode_reward := 0, episode_timesteps := 0\<rparr>) s of
              None \<Rightarrow> None
            | Some (Cancelled r, s') \<Rightarrow> Some (Returned r, s')
            | Some (Raised e, s') \<Rightarrow> Some (Threw e, s')
            | Some (Broke L', s') \<Rightarrow>
                (case episode_done action_noise L' s' of
                   (L'', s'') \<Rightarrow> outer_loop M n_episodes n_steps action_noise replay_buffer accum_context L'' s'')
            | Some (Fell L', s') \<Rightarrow>
                (case episode_done action_noise L' s' of
                   (L'', s'') \<Rightarrow> outer_loop M n_episodes n_steps action_noise replay_buffer accum_context L'' s''))
      else Some (Finished L, s))"

text \<open>A hook call whose exception, if any, is dropped (\<open>try: ... except: pass\<close>).\<close>

definition try_pass :: "unit outcome \<Rightarrow> state \<Rightarrow> state" where
  "try_pass r s = (case r of Raises \<Rightarrow> s | Returns u \<Rightarrow> s)"

definition rollout_end_hooks :: "collab \<Rightarrow> state \<Rightarrow> state" where
  "rollout_end_hooks M s =
     (let s1 = log UpdateLocals s
      in case update_locals_res M (trace s1) of
           Raises \<Rightarrow> s1
         | Returns u \<Rightarrow> (let s2 = log OnRolloutEnd s1 in try_pass (on_rollout_end_res M (trace s2)) s2))"

definition collect_rollouts ::
  "collab \<Rightarrow> int \<Rightarrow> int \<Rightarrow> bool \<Rightarrow> addr option list option \<Rightarrow> bool \<Rightarrow> state
     \<Rightarrow> RolloutReturn result option" where
  "collect_rollouts M n_episodes n_steps action_noise replay_buffer accum_context s =
     (if \<not> env_is_vec M then Some (Inl NotAVecEnv, s)
      else if env_num_envs M \<noteq> 1 then Some (Inl NotSingleEnv, s)
      else
       (let s1 = (if use_sde s then log ActorResetNoise s else s);
            s2 = log OnRolloutStart s1;
            s3 = try_pass (on_rollout_start_res M (trace s2)) s2;
            s4 = log EnvReset s3;
            L = \<lparr>cur_o = env_reset_res M (trace s4), total_steps = 0, total_episodes = 0,
                  episode_rewards = [], total_timesteps = [], episode_reward = 0,
                  episode_timesteps = 0, is_done = False\<rparr>
        in case outer_loop M n_episodes n_steps action_noise replay_buffer accum_context L s4 of
             None \<Rightarrow> None
           | Some (Returned r, s') \<Rightarrow> Some (Inr r, s')
           | Some (Threw e, s') \<Rightarrow> Some (Inl e, s')
           | Some (Finished L', s') \<Rightarrow>
               (let mean_reward = (if total_episodes L' > 0 then mean (episode_rewards L') else 0);
                    s5 = rollout_end_hooks M s'
                in Some (Inr \<lparr>rr_mean_reward = mean_reward, rr_total_steps = total_steps L',
                               rr_total_episodes = total_episodes L', rr_continue_training = True\<rparr>, s5))))"

section \<open>The sample orchestrator: \<open>obtain_samples\<close> and \<open>collect_data\<close>\<close>

partial_function (option) obtain_loop ::
  "collab \<Rightarrow> pynum \<Rightarrow> pynum \<Rightarrow> bool \<Rightarrow> int \<Rightarrow> addr option list \<Rightarrow> int \<Rightarrow> int \<Rightarrow> state
     \<Rightarrow> int result option" where
  [code]: "obtain_loop M max_samples max_trajs accum_context resample replaybuffers n_steps_total n_trajs s =
     (if py_lt (Fin n_steps_total) max_samples \<and> py_lt (Fin n_trajs) max_trajs
      then (case collect_rollouts M 1 (max_path_length s) (has_action_noise s)
                   (Some replaybuffers) accum_context s of
              None \<Rightarrow> None
            | Some (Inl e, s') \<Rightarrow> Some (Inl e, s')
            | Some (Inr rollout, s') \<Rightarrow>
                (if resample = 0 then Some (Inl ZeroDivisionError, s')
                 else obtain_loop M max_samples max_trajs accum_context resample replaybuffers
                        (n_steps_total + max_path_length s') (n_trajs + 1)
                        (if (n_trajs + 1) mod resample = 0 then log SampleZ s' else s')))
      else Some (Inr n_steps_total, s))"

definition obtain_samples ::
  "collab \<Rightarrow> pynum \<Rightarrow> pynum \<Rightarrow> bool \<Rightarrow> int \<Rightarrow> addr option list \<Rightarrow> state \<Rightarrow> int result option" where
  "obtain_samples M max_samples max_trajs accum_context resample replaybuffers s =
     (if py_lt max_samples Inf \<or> py_lt max_trajs Inf
      then obtain_loop M max_samples max_trajs accum_context resample replaybuffers 0 0 s
      else Some (Inl BothQuotasInfinite, s))"

text \<open>\<open>xs[i]\<close> for a Python integer \<open>i\<close>: an index below zero is taken from the end.\<close>

definition py_get :: "'a list \<Rightarrow> int \<Rightarrow> error + 'a" where
  "py_get xs i =
     (if 0 \<le> i \<and> i < int (length xs) then Inr (xs ! nat i)
      else if i < 0 \<and> - int (length xs) \<le> i then Inr (xs ! nat (int (length xs) + i))
      else Inl IndexError)"

text \<open>The list of buffers a \<open>collect_data\<close> pass writes to.\<close>

definition target_buffers :: "bool \<Rightarrow> state \<Rightarrow> error + addr option list" where
  "target_buffers add_to_enc_buffer s =
     (case py_get (RBList_replay s) (task_idx s) of
        Inl e \<Rightarrow> Inl e
      | Inr r \<Rightarrow>
          (if add_to_enc_buffer
           then (case py_get (RBList_encoder s) (task_idx s) of
                   Inl e \<Rightarrow> Inl e
                 | Inr c \<Rightarrow> Inr [r, c])
           else Inr [r]))"

definition update_posterior :: "collab \<Rightarrow> state \<Rightarrow> state" where
  "update_posterior M s =
     (let s1 = log (SampleContext (task_idx s)) s
      in log (InferPosterior (sample_context_res M (trace s1))) s1)"

partial_function (option) collect_loop ::
  "collab \<Rightarrow> int \<Rightarrow> int \<Rightarrow> pynum \<Rightarrow> bool \<Rightarrow> int \<Rightarrow> state \<Rightarrow> int result option" where
  [code]: "collect_loop M num_samples resample_z_rate update_posterior_rate add_to_enc_buffer num_transitions s =
     (if num_transitions < num_samples
      then (case target_buffers add_to_enc_buffer s of
              Inl e \<Rightarrow> Some (Inl e, s)
            | Inr rbs \<Rightarrow>
                (case obtain_samples M (Fin (num_samples - num_transitions)) update_posterior_rate
                        False resample_z_rate rbs s of
                   None \<Rightarrow> None
                 | Some (Inl e, s') \<Rightarrow> Some (Inl e, s')
                 | Some (Inr n_samples, s') \<Rightarrow>
                     collect_loop M num_samples resample_z_rate update_posterior_rate add_to_enc_buffer
                       (num_transitions + n_samples)
                       (if update_posterior_rate \<noteq> Inf then update_posterior M s' else s')))
      else Some (Inr num_transitions, s))"

definition collect_data :: "collab \<Rightarrow> int \<Rightarrow> int \<Rightarrow> pynum \<Rightarrow> bool \<Rightarrow> state \<Rightarrow> unit result option" where
  "collect_data M num_samples resample_z_rate update_posterior_rate add_to_enc_buffer s =
     (case collect_loop M num_samples resample_z_rate update_posterior_rate add_to_enc_buffer 0
             (log ClearZ s) of
        None \<Rightarrow> None
      | Some (Inl e, s') \<Rightarrow> Some (Inl e, s')
      | Some (Inr num_transitions, s') \<Rightarrow>
          Some (Inr (), s'\<lparr>n_env_steps_total := n_env_steps_total s' + num_transitions\<rparr>))"

section \<open>The meta-training loop: \<open>learn\<close>\<close>

text \<open>Running a step after another one that may raise or not return.\<close>

definition and_then :: "'a result option \<Rightarrow> ('a \<Rightarrow> state \<Rightarrow> 'b result option) \<Rightarrow> 'b result option" where
  "and_then m f =
     (case m of
        None \<Rightarrow> None
      | Some (Inl e, s) \<Rightarrow> Some (Inl e, s)
      | Some (Inr x, s) \<Rightarrow> f x s)"

text \<open>\<open>for idx in range(self.n_traintasks)\<close> of the bootstrap (source lines 432 to 435).\<close>

fun bootstrap_tasks :: "collab \<Rightarrow> nat list \<Rightarrow> state \<Rightarrow> unit result option" where
  "bootstrap_tasks M [] s = Some (Inr (), s)"
| "bootstrap_tasks M (idx # idxs) s =
     (let s1 = s\<lparr>task_idx := int idx\<rparr>;
          s2 = log (EnvResetTask (task_idx s1)) s1
      in and_then (collect_data M (num_initial_steps s2) 1 Inf True s2)
           (\<lambda>u. bootstrap_tasks M idxs))"

definition bootstrap :: "collab \<Rightarrow> state \<Rightarrow> unit result option" where
  "bootstrap M s =
     (let s1 = log SetStandardPrior s;
          s2 = log SampleZ s1;
          s3 = log ClearContext s2
      in and_then (bootstrap_tasks M (range (n_traintasks s3)) s3)
           (\<lambda>u s'. Some (Inr (), s'\<lparr>initial_experience := True\<rparr>)))"

text \<open>One pass of \<open>for i in range(self.num_tasks_sample)\<close> (source lines 441 to 454).\<close>

definition sample_round :: "collab \<Rightarrow> state \<Rightarrow> unit result option" where
  "sample_round M s =
     (if n_traintasks s \<le> 0 then Some (Inl ValueError, s)
      else
       (let s1 = log (RandInt (n_traintasks s)) s;
            idx = randint_res M (trace s1);
            s2 = s1\<lparr>task_idx := idx\<rparr>;
            s3 = log (EnvResetTask (task_idx s2)) s2
        in case py_get (RBList_encoder s3) idx of
             Inl e \<Rightarrow> Some (Inl e, s3)
           | Inr None \<Rightarrow> Some (Inl AttributeError, s3)
           | Inr (Some a) \<Rightarrow>
               and_then
                 (and_then
                    (let s4 = buf_reset a s3
                     in if num_steps_prior s4 > 0
                        then collect_data M (num_steps_prior s4) 1 Inf True s4
                        else Some (Inr (), s4))
                    (\<lambda>u s5. if num_steps_posterior s5 > 0
                        then collect_data M (num_steps_posterior s5) 1 (Fin (update_post_train s5)) True s5
                        else Some (Inr (), s5)))
                 (\<lambda>u s6. if num_extra_rl_steps_posterior s6 > 0
                     then collect_data M (num_extra_rl_steps_posterior s6) 1
                            (Fin (update_post_train s6)) False s6
                     else Some (Inr (), s6))))"

fun sample_rounds :: "collab \<Rightarrow> nat list \<Rightarrow> state \<Rightarrow> unit result option" where
  "sample_rounds M [] s = Some (Inr (), s)"
| "sample_rounds M (i # rest) s = and_then (sample_round M s) (\<lambda>u. sample_rounds M rest)"

text \<open>
  One pass of \<open>for train_step in range(self.num_train_steps_per_itr)\<close>.  \<open>np.random.choice(n, k)\<close>
  refuses an empty population when samples are asked for, and a negative size.
\<close>

definition train_step :: "collab \<Rightarrow> state \<Rightarrow> unit result option" where
  "train_step M s =
     (if (n_traintasks s \<le> 0 \<and> meta_batch s \<noteq> 0) \<or> meta_batch s < 0 then Some (Inl ValueError, s)
      else
       (let s1 = log (RandChoice (n_traintasks s) (meta_batch s)) s;
            indices = choice_res M (trace s1);
            s2 = log (DoTraining indices) s1
        in Some (Inr (), s2\<lparr>n_train_steps_total := n_train_steps_total s2 + 1\<rparr>)))"

fun train_steps :: "collab \<Rightarrow> nat list \<Rightarrow> state \<Rightarrow> unit result option" where
  "train_steps M [] s = Some (Inr (), s)"
| "train_steps M (i # rest) s = and_then (train_step M s) (\<lambda>u. train_steps M rest)"

text \<open>The body of \<open>for it_ in range(1)\<close> (source lines 424 to 469).\<close>

definition meta_iteration :: "collab \<Rightarrow> nat \<Rightarrow> state \<Rightarrow> unit result option" where
  "meta_iteration M it s =
     and_then
       (and_then
          (and_then
             (if it = 0 \<and> initial_experience s = False then bootstrap M s else Some (Inr (), s))
             (\<lambda>u s1. sample_rounds M (range (num_tasks_sample s1)) s1))
          (\<lambda>u s2. train_steps M (range (num_train_steps_per_itr s2)) s2))
       (\<lambda>u s3. Some (Inr (), log DumpLogs s3))"

fun meta_iterations :: "collab \<Rightarrow> nat list \<Rightarrow> state \<Rightarrow> unit result option" where
  "meta_iterations M [] s = Some (Inr (), s)"
| "meta_iterations M (it # its) s = and_then (meta_iteration M it s) (\<lambda>u. meta_iterations M its)"

text \<open>
  The part of \<open>_setup_learn\<close> that is in this file (source lines 326 to 354).  With
  \<open>optimize_memory_usage\<close> and \<open>reset_num_timesteps\<close>, the transition last stored in
  \<open>self.replay_buffer\<close>, if that buffer holds any, is marked as the end of a trajectory:
  \<open>dones[(pos - 1) % buffer_size] = True\<close>.  \<open>self.replay_buffer\<close> is \<open>None\<close> as \<open>__init__\<close>
  leaves it (line 153), and then nothing happens.  The other branch of the \<open>isinstance\<close>
  test is for a \<open>HerReplayBuffer\<close>, a class this model has no objects of.
\<close>

definition truncate_last_traj :: "bool \<Rightarrow> state \<Rightarrow> unit result" where
  "truncate_last_traj reset_num_timesteps s =
     (case self_replay_buffer s of
        None \<Rightarrow> (Inr (), s)
      | Some a \<Rightarrow>
          (let b = heap s ! a
           in if optimize_memory_usage s \<and> reset_num_timesteps \<and> (rb_full b \<or> rb_pos b > 0)
              then (if rb_buffer_size b = 0 then (Inl ZeroDivisionError, s)
                    else (let pos = nat ((int (rb_pos b) - 1) mod int (rb_buffer_size b))
                          in if pos < length (rb_store b)
                             then (Inr (),
                                   s\<lparr>heap := (heap s)[a := b\<lparr>rb_store := (rb_store b)
                                      [pos := map_option (\<lambda>t. t\<lparr>t_done := True\<rparr>) (rb_store b ! pos)]\<rparr>]\<rparr>)
                             else (Inl IndexError, s)))
              else (Inr (), s)))"

text \<open>
  Modelled from the spec: \<open>BaseAlgorithm._setup_learn\<close>, which line 356 calls through
  \<open>super()\<close>, is defined in \<open>base_class.py\<close> and not in this file; the specification counts
  it to the generic training skeleton and says no more.  It is modelled by what it does to
  the fields and collaborators kept here: it resets the action noise if there is one; with
  \<open>reset_num_timesteps\<close> it sets \<open>num_timesteps\<close> and \<open>_episode_num\<close> to zero; with
  \<open>reset_num_timesteps\<close>, or when no observation is held yet, it calls \<open>env.reset()\<close> and
  keeps the observation in \<open>_last_obs\<close>.  Its remaining work (time stamp, episode-info
  buffers, logger, wrapping of the callback) is taken to return and touches none of these
  fields; the callback it returns is overwritten by line 412.
\<close>

definition base_setup_learn :: "collab \<Rightarrow> bool \<Rightarrow> state \<Rightarrow> state" where
  "base_setup_learn M reset_num_timesteps s =
     (let s1 = (if has_action_noise s then log ActionNoiseReset s else s);
          s2 = (if reset_num_timesteps then s1\<lparr>num_timesteps := 0, episode_num := 0\<rparr> else s1)
      in if reset_num_timesteps \<or> last_obs s2 = None
         then (let s3 = log EnvReset s2 in s3\<lparr>last_obs := Some (env_reset_res M (trace s3))\<rparr>)
         else s2)"

text \<open>\<open>_setup_learn\<close> (source lines 313 to 365).\<close>

definition setup_learn :: "collab \<Rightarrow> bool \<Rightarrow> state \<Rightarrow> unit result" where
  "setup_learn M reset_num_timesteps s =
     (case truncate_last_traj reset_num_timesteps s of
        (Inl e, s') \<Rightarrow> (Inl e, s')
      | (Inr u, s') \<Rightarrow> (Inr (), base_setup_learn M reset_num_timesteps s'))"

text \<open>
  \<open>learn\<close> (source lines 396 to 473): \<open>_setup_learn\<close>, then \<open>callback.on_training_start\<close>,
  the loop \<open>for it_ in range(1)\<close> and \<open>callback.on_training_end\<close>.  The two hooks are called
  on the \<open>callback\<close> argument as it was passed, outside any \<open>try\<close>: what they raise, \<open>learn\<close>
  raises.  Of the arguments only \<open>reset_num_timesteps\<close> and the callback have an effect
  here.
\<close>

definition learn :: "collab \<Rightarrow> bool \<Rightarrow> state \<Rightarrow> unit result option" where
  "learn M reset_num_timesteps s =
     (case setup_learn M reset_num_timesteps s of
        (Inl e, s0) \<Rightarrow> Some (Inl e, s0)
      | (Inr u, s0) \<Rightarrow>
          (let s1 = log OnTrainingStart s0
           in case on_training_start_res M (trace s1) of
                Raises \<Rightarrow> Some (Inl HookRaised, s1)
              | Returns v \<Rightarrow>
                  and_then (meta_iterations M (range 1) s1)
                    (\<lambda>w s2. let s3 = log OnTrainingEnd s2
                            in case on_training_end_res M (trace s3) of
                                 Raises \<Rightarrow> Some (Inl HookRaised, s3)
                               | Returns x \<Rightarrow> Some (Inr (), s3))))"

section \<open>Reading a trace\<close>

fun is_env_step :: "event \<Rightarrow> bool" where
  "is_env_step (EnvStep a) = True"
| "is_env_step e = False"

fun is_buf_add :: "event \<Rightarrow> bool" where
  "is_buf_add (BufAdd a t) = True"
| "is_buf_add e = False"

text \<open>The calls that the two loops of \<open>collect_rollouts\<close> can make.\<close>

fun in_loop :: "event \<Rightarrow> bool" where
  "in_loop ActorResetNoise = True"
| "in_loop (GetAction ob) = True"
| "in_loop (EnvStep a) = True"
| "in_loop UpdateContext = True"
| "in_loop UpdateLocals = True"
| "in_loop OnStep = True"
| "in_loop UpdateInfoBuffer = True"
| "in_loop (BufAdd a t) = True"
| "in_loop ActionNoiseReset = True"
| "in_loop DumpLogs = True"
| "in_loop e = False"

text \<open>
  No call of \<open>on_step()\<close> among the events \<open>new\<close>, made after the trace \<open>tr\<close>, answered
  \<open>False\<close>.
\<close>

fun cancel_free :: "collab \<Rightarrow> event list \<Rightarrow> event list \<Rightarrow> bool" where
  "cancel_free M tr [] = True"
| "cancel_free M tr (e # es) =
     ((e = OnStep \<longrightarrow> on_step_res M (tr @ [e]) \<noteq> Returns PyFalse) \<and> cancel_free M (tr @ [e]) es)"

text \<open>What \<open>collect_rollouts\<close> leaves alone: everything but the trace, the buffers and two counters.\<close>

definition rollout_frame :: "state \<Rightarrow> state \<Rightarrow> bool" where
  "rollout_frame s s' \<longleftrightarrow>
     s' = s\<lparr>trace := trace s', heap := heap s', num_timesteps := num_timesteps s',
            episode_num := episode_num s'\<rparr>"

text \<open>How many buffers one step writes to.\<close>

definition buf_count :: "addr option list option \<Rightarrow> nat" where
  "buf_count rb = (case rb of None \<Rightarrow> 0 | Some rbs \<Rightarrow> length rbs)"

text \<open>
  What holds between the entry \<open>s0\<close> of the loops of \<open>collect_rollouts\<close> and any later
  loop head: the calls made since, how many of each kind, and the counters.
\<close>

definition loop_inv :: "collab \<Rightarrow> addr option list option \<Rightarrow> state \<Rightarrow> frame \<Rightarrow> state \<Rightarrow> bool" where
  "loop_inv M rb s0 L s \<longleftrightarrow>
     (\<exists>new. trace s = trace s0 @ new \<and> (\<forall>e\<in>set new. in_loop e) \<and> cancel_free M (trace s0) new \<and>
            int (length (filter is_env_step new)) = total_steps L \<and>
            count_list new UpdateInfoBuffer = nat (total_steps L) \<and>
            length (filter is_buf_add new) = nat (total_steps L) * buf_count rb) \<and>
     rollout_frame s0 s \<and>
     num_timesteps s = num_timesteps s0 + total_steps L \<and>
     episode_num s = episode_num s0 + total_episodes L"

text \<open>The same for a rollout that the step hook cancelled.\<close>

definition cancel_post :: "collab \<Rightarrow> addr option list option \<Rightarrow> state \<Rightarrow> RolloutReturn \<Rightarrow> state \<Rightarrow> bool" where
  "cancel_post M rb s0 r s \<longleftrightarrow>
     (\<exists>new. trace s = trace s0 @ new @ [OnStep] \<and> (\<forall>e\<in>set new. in_loop e) \<and>
            cancel_free M (trace s0) new \<and>
            int (length (filter is_env_step new)) = rr_total_steps r \<and>
            count_list new UpdateInfoBuffer = nat (rr_total_steps r - 1) \<and>
            length (filter is_buf_add new) = nat (rr_total_steps r - 1) * buf_count rb \<and>
            (\<exists>before step. new = before @ step \<and> length (filter is_env_step step) = 1 \<and>
                filter is_buf_add step = [] \<and> UpdateInfoBuffer \<notin> set step)) \<and>
     on_step_res M (trace s) = Returns PyFalse \<and>
     rollout_frame s0 s \<and>
     rr_mean_reward r = 0 \<and> \<not> rr_continue_training r \<and> 1 \<le> rr_total_steps r \<and>
     num_timesteps s = num_timesteps s0 + rr_total_steps r \<and>
     episode_num s = episode_num s0 + rr_total_episodes r"

text \<open>The only exception the loops can raise: a \<open>None\<close> among the buffers.\<close>

definition raise_post :: "addr option list option \<Rightarrow> state \<Rightarrow> error \<Rightarrow> state \<Rightarrow> bool" where
  "raise_post rb s0 e s \<longleftrightarrow>
     e = AttributeError \<and> (\<exists>rbs. rb = Some rbs \<and> None \<in> set rbs) \<and>
     (\<exists>new. trace s = trace s0 @ new \<and> (\<forall>e\<in>set new. in_loop e)) \<and> rollout_frame s0 s"

text \<open>A rollout that ran to the end of its loops, and the return value built from them.\<close>

definition finish_post ::
  "collab \<Rightarrow> int \<Rightarrow> int \<Rightarrow> addr option list option \<Rightarrow> state \<Rightarrow> RolloutReturn \<Rightarrow> state \<Rightarrow> bool" where
  "finish_post M n_episodes n_steps rb s0 r s \<longleftrightarrow>
     (\<exists>L sL post. loop_inv M rb s0 L sL \<and>
        \<not> (total_steps L < n_steps \<and> total_episodes L < n_episodes) \<and>
        trace s = trace sL @ post \<and> (post = [UpdateLocals] \<or> post = [UpdateLocals, OnRolloutEnd]) \<and>
        s = sL\<lparr>trace := trace s\<rparr> \<and>
        r = \<lparr>rr_mean_reward = (if total_episodes L > 0 then mean (episode_rewards L) else 0),
              rr_total_steps = total_steps L, rr_total_episodes = total_episodes L,
              rr_continue_training = True\<rparr>)"

text \<open>The calls made inside a rollout after its two opening calls.\<close>

definition inside :: "event \<Rightarrow> bool" where
  "inside e \<longleftrightarrow> in_loop e \<or> e = OnRolloutEnd"

text \<open>A trace without what happens inside the rollouts.\<close>

definition skeleton :: "event list \<Rightarrow> event list" where
  "skeleton tr = filter (\<lambda>e. \<not> inside e) tr"

text \<open>
  Where the environment stands within a trace: no rollout opened yet, a rollout opened and
  not yet reset, or reset and stepping.
\<close>

datatype phase = Outside | Entered | Running

fun reset_step :: "phase option \<Rightarrow> event \<Rightarrow> phase option" where
  "reset_step None e = None"
| "reset_step (Some p) OnRolloutStart = (if p = Entered then None else Some Entered)"
| "reset_step (Some p) EnvReset = (if p = Entered then Some Running else None)"
| "reset_step (Some p) (EnvStep a) = (if p = Running then Some Running else None)"
| "reset_step (Some p) e = Some p"

text \<open>
  Every rollout of the trace resets the environment exactly once, before it steps it, and
  every step belongs to a rollout.
\<close>

definition resets_first :: "event list \<Rightarrow> bool" where
  "resets_first tr \<longleftrightarrow> foldl reset_step (Some Outside) tr \<in> {Some Outside, Some Running}"

text \<open>The skeleton of the \<open>j\<close>-th trajectory of an \<open>obtain_samples\<close> call, and of \<open>k\<close> of them.\<close>

definition traj_marks :: "int \<Rightarrow> nat \<Rightarrow> event list" where
  "traj_marks resample j =
     [OnRolloutStart, EnvReset] @ (if int j mod resample = 0 then [SampleZ] else [])"

definition obtain_marks :: "int \<Rightarrow> nat \<Rightarrow> event list" where
  "obtain_marks resample k = concat (map (traj_marks resample) [1..<Suc k])"

text \<open>What decreases with every pass of the loop of \<open>obtain_samples\<close> when a quota is finite.\<close>

definition obtain_measure :: "pynum \<Rightarrow> pynum \<Rightarrow> int \<Rightarrow> int \<Rightarrow> nat" where
  "obtain_measure max_samples max_trajs nst nt =
     (case max_trajs of Fin t \<Rightarrow> nat (t - nt)
      | Inf \<Rightarrow> (case max_samples of Fin m \<Rightarrow> nat (m - nst) | Inf \<Rightarrow> 0))"

text \<open>
  The skeleton of one pass of the loop of \<open>collect_data\<close>: an \<open>obtain_samples\<close> call of \<open>k\<close>
  trajectories, then, when the posterior rate is finite, the context batch \<open>c\<close> drawn for the
  active task and the posterior update from it.  A pass is the pair \<open>(k, c)\<close>.
\<close>

definition pass_marks :: "int \<Rightarrow> pynum \<Rightarrow> int \<Rightarrow> nat \<times> context_batch \<Rightarrow> event list" where
  "pass_marks resample rate idx p =
     obtain_marks resample (fst p) @
     (if rate \<noteq> Inf then [SampleContext idx, InferPosterior (snd p)] else [])"

text \<open>The cadence of a whole \<open>collect_data\<close> call, as the specification words it.\<close>

definition collect_marks :: "int \<Rightarrow> pynum \<Rightarrow> int \<Rightarrow> (nat \<times> context_batch) list \<Rightarrow> event list" where
  "collect_marks resample rate idx passes =
     ClearZ # concat (map (pass_marks resample rate idx) passes)"

text \<open>
  The calls that mark the phases of \<open>learn\<close>, and the \<open>env.reset()\<close> that opens each
  trajectory collected in them.
\<close>

fun is_phase :: "event \<Rightarrow> bool" where
  "is_phase OnTrainingStart = True"
| "is_phase OnTrainingEnd = True"
| "is_phase SetStandardPrior = True"
| "is_phase ClearContext = True"
| "is_phase (EnvResetTask i) = True"
| "is_phase ClearZ = True"
| "is_phase EnvReset = True"
| "is_phase (SampleContext i) = True"
| "is_phase (RandInt n) = True"
| "is_phase (BufReset a) = True"
| "is_phase (RandChoice n k) = True"
| "is_phase (DoTraining b) = True"
| "is_phase e = False"

definition phases :: "event list \<Rightarrow> event list" where
  "phases tr = filter is_phase tr"

text \<open>
  The phases as the specification words them.  A pass of a \<open>collect_data\<close> call collects
  \<open>k\<close> trajectories and, with a finite posterior rate, then draws a context batch; the call
  clears the latent context and makes its passes, given by their trajectory counts \<open>ks\<close>.
\<close>

definition pass_phases :: "pynum \<Rightarrow> int \<Rightarrow> nat \<Rightarrow> event list" where
  "pass_phases rate idx k =
     replicate k EnvReset @ (if rate \<noteq> Inf then [SampleContext idx] else [])"

definition collect_phases :: "pynum \<Rightarrow> int \<Rightarrow> nat list \<Rightarrow> event list" where
  "collect_phases rate idx ks = ClearZ # concat (map (pass_phases rate idx) ks)"


text \<open>
  Bootstrap: standard prior, context cleared, then for every training task in order the task
  switch and a collection with no trajectory bound; \<open>boots\<close> gives the passes of each task.
\<close>

definition task_phases :: "nat \<times> nat list \<Rightarrow> event list" where
  "task_phases b = EnvResetTask (int (fst b)) # collect_phases Inf (int (fst b)) (snd b)"

definition bootstrap_phases :: "nat list list \<Rightarrow> event list" where
  "bootstrap_phases boots =
     [SetStandardPrior, ClearContext] @ concat (map task_phases (zip [0..<length boots] boots))"

text \<open>
  A task-sampling round \<open>(idx, a, c0, c1, c2)\<close>: the random draw, the task switch, the reset of
  the encoder buffer \<open>a\<close> of task \<open>idx\<close>, then the collections whose step counts are positive,
  with passes \<open>c0\<close>, \<open>c1\<close> and \<open>c2\<close>.
\<close>

type_synonym task_round = "int \<times> addr \<times> nat list \<times> nat list \<times> nat list"

definition round_phases :: "state \<Rightarrow> task_round \<Rightarrow> event list" where
  "round_phases s r =
     (case r of
        (idx, a, c0, c1, c2) \<Rightarrow>
          [RandInt (n_traintasks s), EnvResetTask idx, BufReset a] @
          (if num_steps_prior s > 0 then collect_phases Inf idx c0 else []) @
          (if num_steps_posterior s > 0
           then collect_phases (Fin (update_post_train s)) idx c1 else []) @
          (if num_extra_rl_steps_posterior s > 0
           then collect_phases (Fin (update_post_train s)) idx c2 else []))"


text \<open>The gradient steps, each with the batch of task indices it drew.\<close>

definition train_phases :: "state \<Rightarrow> int list list \<Rightarrow> event list" where
  "train_phases s batches =
     concat (map (\<lambda>b. [RandChoice (n_traintasks s) (meta_batch s), DoTraining b]) batches)"

text \<open>
  What \<open>_setup_learn\<close> does before the training starts: a reset of the environment, unless
  the counters are kept and an observation is already held.
\<close>

definition setup_phases :: "bool \<Rightarrow> state \<Rightarrow> event list" where
  "setup_phases reset_num_timesteps s =
     (if reset_num_timesteps \<or> last_obs s = None then [EnvReset] else [])"

text \<open>One meta-iteration: bootstrap if there is no initial experience, rounds, gradient steps.\<close>

definition iteration_phases :: "state \<Rightarrow> nat list list \<Rightarrow> task_round list \<Rightarrow> int list list \<Rightarrow> event list" where
  "iteration_phases s boots rounds batches =
     (if initial_experience s then [] else bootstrap_phases boots) @
     concat (map (round_phases s) rounds) @ train_phases s batches"

text \<open>A whole call of \<open>learn\<close>: set-up, training start, one meta-iteration, training end.\<close>

definition learn_phases ::
  "state \<Rightarrow> bool \<Rightarrow> nat list list \<Rightarrow> task_round list \<Rightarrow> int list list \<Rightarrow> event list" where
  "learn_phases s reset_num_timesteps boots rounds batches =
     setup_phases reset_num_timesteps s @ [OnTrainingStart] @
     iteration_phases s boots rounds batches @ [OnTrainingEnd]"



text \<open>The configuration that \<open>learn\<close> reads and never writes.\<close>

definition learn_keeps :: "state \<Rightarrow> state \<Rightarrow> bool" where
  "learn_keeps s s' \<longleftrightarrow>
     n_traintasks s' = n_traintasks s \<and> RBList_replay s' = RBList_replay s \<and>
     RBList_encoder s' = RBList_encoder s \<and> max_path_length s' = max_path_length s \<and>
     num_initial_steps s' = num_initial_steps s \<and> num_steps_prior s' = num_steps_prior s \<and>
     num_steps_posterior s' = num_steps_posterior s \<and>
     num_extra_rl_steps_posterior s' = num_extra_rl_steps_posterior s \<and>
     update_post_train s' = update_post_train s \<and> num_tasks_sample s' = num_tasks_sample s \<and>
     num_train_steps_per_itr s' = num_train_steps_per_itr s \<and> meta_batch s' = meta_batch s \<and>
     optimize_memory_usage s' = optimize_memory_usage s \<and>
     self_replay_buffer s' = self_replay_buffer s"


section \<open>Properties of the buffer pools\<close>

text \<open>
  The pools of \<open>s'\<close> hold pairwise different references to buffers constructed after \<open>s\<close>,
  each as \<open>ReplayBuffer(buffer_size, ...)\<close> makes it, so that writing through one slot leaves
  the buffer of every other slot as it was.
\<close>

definition pools_fresh :: "state \<Rightarrow> state \<Rightarrow> bool" where
  "pools_fresh s s' \<longleftrightarrow>
     distinct (pool_refs s') \<and>
     (\<forall>r\<in>set (pool_refs s'). \<exists>a. r = Some a \<and> length (heap s) \<le> a \<and> a < length (heap s') \<and>
         heap s' ! a = ReplayBuffer (buffer_size s)) \<and>
     (\<forall>i<length (pool_refs s'). \<forall>j<length (pool_refs s'). i \<noteq> j \<longrightarrow>
         (\<forall>a b t. pool_refs s' ! i = Some a \<longrightarrow> pool_refs s' ! j = Some b \<longrightarrow>
            heap (buf_add a t s') ! b = heap s' ! b))"

definition pools_sized :: "state \<Rightarrow> bool" where
  "pools_sized s \<longleftrightarrow>
     length (RBList_replay s) = nat (n_traintasks s) \<and>
     length (RBList_encoder s) = nat (n_traintasks s) \<and>
     length (RBList_eval s) = nat (n_evaltasks s)"

section \<open>Concrete objects for running the model\<close>

text \<open>The object as \<open>__init__\<close> leaves it (the fields \<open>_setup_model\<close> sets start at zero).\<close>

definition init_algorithm :: "nat \<Rightarrow> int \<Rightarrow> int \<Rightarrow> state" where
  "init_algorithm bsize ntrain neval =
     \<lparr>buffer_size = bsize, n_traintasks = ntrain, n_evaltasks = neval,
      use_sde = False, sde_sample_freq = -1, has_action_noise = False, has_logger = True,
      optimize_memory_usage = False, self_replay_buffer = None, last_obs = None,
      num_timesteps = 0, episode_num = 0, n_env_steps_total = 0, n_train_steps_total = 0,
      initial_experience = False, task_idx = 0, heap = [],
      RBList_replay = [], RBList_encoder = [], RBList_eval = [], JUST_EVAL = None,
      num_initial_steps = 0, num_train_steps_per_itr = 0, num_steps_prior = 0,
      num_steps_posterior = 0, num_extra_rl_steps_posterior = 0, update_post_train = 0,
      num_tasks_sample = 0, max_path_length = 0, meta_batch = 0, trace = []\<rparr>"

text \<open>Steps taken in the environment since its last \<open>reset()\<close>.\<close>

fun steps_since_reset :: "event list \<Rightarrow> nat" where
  "steps_since_reset [] = 0"
| "steps_since_reset (EnvReset # tr) = steps_since_reset tr"
| "steps_since_reset (EnvStep a # tr) =
     (if EnvReset \<in> set tr then steps_since_reset tr else Suc (steps_since_reset tr))"
| "steps_since_reset (e # tr) = steps_since_reset tr"

text \<open>
  A single environment whose episodes end after \<open>horizon\<close> steps (never, for \<open>horizon = 0\<close>),
  with reward 1 per step; an actor that always plays 0; hooks that return \<open>None\<close>, except
  that \<open>on_step()\<close> returns \<open>False\<close> at its \<open>stop_at\<close>-th call and that every hook raises
  when \<open>faulty\<close> is set.
\<close>

definition toy_world :: "nat \<Rightarrow> nat \<Rightarrow> bool \<Rightarrow> collab" where
  "toy_world horizon stop_at faulty =
     \<lparr>env_is_vec = True, env_num_envs = 1,
      env_reset_res = (\<lambda>tr. 0),
      env_step_res = (\<lambda>tr. (int (steps_since_reset tr), 1, steps_since_reset tr = horizon, 0)),
      get_action_res = (\<lambda>tr. 0),
      on_rollout_start_res = (\<lambda>tr. if faulty then Raises else Returns ()),
      update_locals_res = (\<lambda>tr. if faulty then Raises else Returns ()),
      on_step_res = (\<lambda>tr. if faulty then Raises
                           else if count_list tr OnStep = stop_at then Returns PyFalse
                           else Returns PyNone),
      on_rollout_end_res = (\<lambda>tr. if faulty then Raises else Returns ()),
      on_training_start_res = (\<lambda>tr. if faulty then Raises else Returns ()),
      on_training_end_res = (\<lambda>tr. if faulty then Raises else Returns ()),
      sample_context_res = (\<lambda>tr. []),
      randint_res = (\<lambda>tr. 0),
      choice_res = (\<lambda>tr. [])\<rparr>"

definition toy_transition :: transition where
  "toy_transition = \<lparr>t_obs = 0, t_next_obs = 1, t_action = 0, t_reward = 1, t_done = False, t_infos = 0\<rparr>"

text \<open>Two training tasks and one evaluation task, buffers of size 2, some of them written to.\<close>

definition toy_filled :: state where
  "toy_filled =
     (case setup_model (init_algorithm 2 2 1) of
        Inl e \<Rightarrow> init_algorithm 2 2 1
      | Inr s \<Rightarrow> buf_add 0 toy_transition (buf_add 3 toy_transition (buf_add 3 toy_transition s)))"

text \<open>The local variables of \<open>collect_rollouts\<close> on entering the outer loop (observation 0).\<close>

definition frame0 :: frame where
  "frame0 = \<lparr>cur_o = 0, total_steps = 0, total_episodes = 0, episode_rewards = [],
             total_timesteps = [], episode_reward = 0, episode_timesteps = 0, is_done = False\<rparr>"

text \<open>What a finished outer loop counted: episodes, their rewards and lengths, \<open>_episode_num\<close>.\<close>

definition episode_stats :: "(exit \<times> state) option \<Rightarrow> (int \<times> real list \<times> int list \<times> int) option" where
  "episode_stats res =
     (case res of
        Some (Finished L, s) \<Rightarrow> Some (total_episodes L, episode_rewards L, total_timesteps L, episode_num s)
      | _ \<Rightarrow> None)"

text \<open>An object with one buffer of size 2 on its heap, and the state a cancelled rollout leaves.\<close>

definition toy_start :: state where
  "toy_start = (init_algorithm 2 0 0)\<lparr>heap := [ReplayBuffer 2]\<rparr>"

definition toy_cancelled :: state where
  "toy_cancelled =
     toy_start\<lparr>num_timesteps := 2,
       heap := [\<lparr>rb_buffer_size = 2, rb_pos = 1, rb_full = False,
                 rb_store = [Some \<lparr>t_obs = 0, t_next_obs = 1, t_action = 0, t_reward = 1,
                                   t_done = False, t_infos = 0\<rparr>, None]\<rparr>],
       trace := [OnRolloutStart, EnvReset,
                 GetAction 0, EnvStep 0, UpdateLocals, OnStep, UpdateInfoBuffer,
                 BufAdd 0 \<lparr>t_obs = 0, t_next_obs = 1, t_action = 0, t_reward = 1,
                           t_done = False, t_infos = 0\<rparr>,
                 GetAction 1, EnvStep 0, UpdateLocals, OnStep]\<rparr>"

text \<open>
  Two training tasks and one evaluation task with buffers of size 4, trajectories of two steps
  and short phases, so that a whole run can be evaluated.
\<close>

definition toy_task :: state where
  "toy_task =
     (case setup_model (init_algorithm 4 2 1) of
        Inl e \<Rightarrow> init_algorithm 4 2 1
      | Inr s \<Rightarrow> s\<lparr>max_path_length := 2, num_initial_steps := 3, num_steps_prior := 2,
                    num_steps_posterior := 0, num_extra_rl_steps_posterior := 2,
                    update_post_train := 1, num_tasks_sample := 1,
                    num_train_steps_per_itr := 2, meta_batch := 2\<rparr>)"

text \<open>
  What a finished call leaves behind: \<open>_n_env_steps_total\<close>, \<open>num_timesteps\<close>, and how many
  \<open>env.step\<close> calls and buffer writes its trace holds.
\<close>

definition run_counts :: "unit result option \<Rightarrow> (int \<times> int \<times> nat \<times> nat) option" where
  "run_counts res =
     (case res of
        Some (Inr u, s) \<Rightarrow>
          Some (n_env_steps_total s, num_timesteps s,
                length (filter is_env_step (trace s)), length (filter is_buf_add (trace s)))
      | _ \<Rightarrow> None)"

section \<open>Verification: buffer pools\<close>

lemma fill_slots_from:
  "k \<le> m \<Longrightarrow> length pool = m \<Longrightarrow>
   fill_slots [k..<m] n pool h =
     Inr (take k pool @ map (\<lambda>j. Some (length h + j - k)) [k..<m], h @ replicate (m - k) (ReplayBuffer n))"
proof (induction "m - k" arbitrary: k pool h)
  case 0
  then show ?case by simp
next
  case (Suc d)
  then have km: "k < m" by simp
  have u: "[k..<m] = k # [Suc k..<m]" using km by (simp add: upt_conv_Cons)
  have d: "d = m - Suc k" using Suc.hyps(2) by simp
  have len: "length (pool[k := Some (length h)]) = m" using Suc.prems by simp
  have tk: "take (Suc k) (pool[k := Some (length h)]) = take k pool @ [Some (length h)]"
    using km Suc.prems by (simp add: take_Suc_conv_app_nth)
  have mp: "map (\<lambda>j. Some (length (h @ [ReplayBuffer n]) + j - Suc k)) [Suc k..<m]
          = map (\<lambda>j. Some (length h + j - k)) [Suc k..<m]"
    by (rule map_cong) auto
  have rp: "(h @ [ReplayBuffer n]) @ replicate (m - Suc k) (ReplayBuffer n) = h @ replicate (m - k) (ReplayBuffer n)"
    using km by (simp add: Suc_diff_Suc replicate_app_Cons_same flip: replicate_Suc)
  show ?case
    using Suc.hyps(1)[OF d _ len, of "h @ [ReplayBuffer n]"] km Suc.prems
    unfolding u using rp by (simp add: Let_def tk mp del: replicate_Suc)
qed

lemma fill_slots_range:
  "length pool = nat m \<Longrightarrow>
   fill_slots (range m) n pool h =
     Inr (map (\<lambda>j. Some (length h + j)) [0..<nat m], h @ replicate (nat m) (ReplayBuffer n))"
  using fill_slots_from[of 0 "nat m" pool n h] by (simp add: range_def)


lemma setup_model_eq:
  "setup_model s =
     Inr (s\<lparr>RBList_replay := map (\<lambda>j. Some (length (heap s) + j)) [0..<nat (n_traintasks s)],
            RBList_encoder := map (\<lambda>j. Some (length (heap s) + nat (n_traintasks s) + j)) [0..<nat (n_traintasks s)],
            RBList_eval := map (\<lambda>j. Some (length (heap s) + nat (n_traintasks s) + nat (n_traintasks s) + j)) [0..<nat (n_evaltasks s)],
            num_initial_steps := 1000, num_train_steps_per_itr := 2000, num_steps_prior := 200,
            num_steps_posterior := 0, num_extra_rl_steps_posterior := 300, update_post_train := 1,
            num_tasks_sample := 5, max_path_length := 100, meta_batch := 16, n_train_steps_total := 0,
            JUST_EVAL := Some (length (heap s) + nat (n_traintasks s) + nat (n_traintasks s) + nat (n_evaltasks s)),
            heap := heap s @ replicate (nat (n_traintasks s) + nat (n_traintasks s) + nat (n_evaltasks s))
                      (ReplayBuffer (buffer_size s)) @ [ReplayBuffer (buffer_size s)]\<rparr>)"
  by (simp add: setup_model_def fill_slots_range replicate_add add.assoc)

lemma reset_buffers_eq:
  assumes "length (RBList_replay s) = nat (n_traintasks s)"
      and "length (RBList_encoder s) = nat (n_traintasks s)"
      and "length (RBList_eval s) = nat (n_evaltasks s)"
  shows "reset_buffers s =
     Inr (s\<lparr>RBList_replay := map (\<lambda>j. Some (length (heap s) + j)) [0..<nat (n_traintasks s)],
            RBList_encoder := map (\<lambda>j. Some (length (heap s) + nat (n_traintasks s) + j)) [0..<nat (n_traintasks s)],
            RBList_eval := map (\<lambda>j. Some (length (heap s) + nat (n_traintasks s) + nat (n_traintasks s) + j)) [0..<nat (n_evaltasks s)],
            heap := heap s @ replicate (nat (n_traintasks s) + nat (n_traintasks s) + nat (n_evaltasks s))
                      (ReplayBuffer (buffer_size s))\<rparr>)"
  using assms by (simp add: reset_buffers_def fill_slots_range replicate_add add.assoc)


lemma pools_fresh_intro:
  assumes d: "distinct (pool_refs s')"
      and f: "\<forall>r\<in>set (pool_refs s'). \<exists>a. r = Some a \<and> length (heap s) \<le> a \<and> a < length (heap s') \<and>
                heap s' ! a = ReplayBuffer (buffer_size s)"
  shows "pools_fresh s s'"
proof -
  have "heap (buf_add a t s') ! b = heap s' ! b"
    if "i < length (pool_refs s')" "j < length (pool_refs s')" "i \<noteq> j"
       "pool_refs s' ! i = Some a" "pool_refs s' ! j = Some b" for i j a b t
  proof -
    have "pool_refs s' ! i \<noteq> pool_refs s' ! j"
      using d that(1-3) by (simp add: nth_eq_iff_index_eq)
    then have "a \<noteq> b" using that(4,5) by auto
    then show ?thesis by (simp add: buf_add_def log_def)
  qed
  then show ?thesis unfolding pools_fresh_def using d f by blast
qed

lemma fresh_refs_distinct:
  "distinct (map (\<lambda>j. Some (h + j)) [0..<a] @ map (\<lambda>j. Some (h + a + j)) [0..<a]
             @ map (\<lambda>j. Some (h + a + a + j)) [0..<(b::nat)])"
  by (auto simp: distinct_map inj_on_def)

lemma fresh_refs_range:
  "r \<in> set (map (\<lambda>j. Some (h + j)) [0..<a] @ map (\<lambda>j. Some (h + a + j)) [0..<a]
             @ map (\<lambda>j. Some (h + a + a + j)) [0..<(b::nat)])
   \<Longrightarrow> \<exists>x. r = Some x \<and> h \<le> x \<and> x < h + (a + a + b)"
  by auto

lemma nth_append_replicate:
  "length h \<le> x \<Longrightarrow> x < length h + n \<Longrightarrow> (h @ replicate n v @ w) ! x = v"
  by (auto simp: nth_append)

lemma nth_append_replicate0:
  "length h \<le> x \<Longrightarrow> x < length h + n \<Longrightarrow> (h @ replicate n v) ! x = v"
  using nth_append_replicate[of h x n v "[]"] by simp

lemma setup_model_fresh:
  "\<exists>s'. setup_model s = Inr s' \<and> pools_sized s' \<and> n_traintasks s' = n_traintasks s \<and>
         n_evaltasks s' = n_evaltasks s \<and> pools_fresh s s'"
proof -
  obtain s' where eq: "setup_model s = Inr s'"
    and rp: "RBList_replay s' = map (\<lambda>j. Some (length (heap s) + j)) [0..<nat (n_traintasks s)]"
    and en: "RBList_encoder s' = map (\<lambda>j. Some (length (heap s) + nat (n_traintasks s) + j)) [0..<nat (n_traintasks s)]"
    and ev: "RBList_eval s' = map (\<lambda>j. Some (length (heap s) + nat (n_traintasks s) + nat (n_traintasks s) + j)) [0..<nat (n_evaltasks s)]"
    and hp: "heap s' = heap s @ replicate (nat (n_traintasks s) + nat (n_traintasks s) + nat (n_evaltasks s))
                      (ReplayBuffer (buffer_size s)) @ [ReplayBuffer (buffer_size s)]"
    and nt: "n_traintasks s' = n_traintasks s" and ne: "n_evaltasks s' = n_evaltasks s"
    using setup_model_eq[of s] by simp
  have sz: "pools_sized s'" by (simp add: pools_sized_def rp en ev nt ne)
  have d: "distinct (pool_refs s')"
    unfolding pool_refs_def rp en ev by (rule fresh_refs_distinct)
  have f: "\<forall>r\<in>set (pool_refs s'). \<exists>a. r = Some a \<and> length (heap s) \<le> a \<and> a < length (heap s') \<and>
                heap s' ! a = ReplayBuffer (buffer_size s)"
  proof
    fix r assume "r \<in> set (pool_refs s')"
    then obtain x where x: "r = Some x" "length (heap s) \<le> x"
        "x < length (heap s) + (nat (n_traintasks s) + nat (n_traintasks s) + nat (n_evaltasks s))"
      unfolding pool_refs_def rp en ev by (drule_tac fresh_refs_range) blast
    have "heap s' ! x = ReplayBuffer (buffer_size s)"
      unfolding hp using x(2,3) by (rule nth_append_replicate)
    moreover have "x < length (heap s')" unfolding hp using x(3) by simp
    ultimately show "\<exists>a. r = Some a \<and> length (heap s) \<le> a \<and> a < length (heap s') \<and>
                heap s' ! a = ReplayBuffer (buffer_size s)" using x(1,2) by blast
  qed
  show ?thesis using eq sz nt ne pools_fresh_intro[OF d f] by blast
qed

lemma rb_stored_fresh: "rb_stored (ReplayBuffer n) = 0"
  by (simp add: rb_stored_def ReplayBuffer_def)

lemma reset_buffers_fresh:
  assumes "pools_sized s"
  shows "\<exists>s'. reset_buffers s = Inr s' \<and> pools_sized s' \<and> n_traintasks s' = n_traintasks s \<and>
         n_evaltasks s' = n_evaltasks s \<and> pools_fresh s s'"
proof -
  obtain s' where eq: "reset_buffers s = Inr s'"
    and rp: "RBList_replay s' = map (\<lambda>j. Some (length (heap s) + j)) [0..<nat (n_traintasks s)]"
    and en: "RBList_encoder s' = map (\<lambda>j. Some (length (heap s) + nat (n_traintasks s) + j)) [0..<nat (n_traintasks s)]"
    and ev: "RBList_eval s' = map (\<lambda>j. Some (length (heap s) + nat (n_traintasks s) + nat (n_traintasks s) + j)) [0..<nat (n_evaltasks s)]"
    and hp: "heap s' = heap s @ replicate (nat (n_traintasks s) + nat (n_traintasks s) + nat (n_evaltasks s))
                      (ReplayBuffer (buffer_size s))"
    and nt: "n_traintasks s' = n_traintasks s" and ne: "n_evaltasks s' = n_evaltasks s"
    using reset_buffers_eq[of s] assms by (simp add: pools_sized_def)
  have sz: "pools_sized s'" by (simp add: pools_sized_def rp en ev nt ne)
  have d: "distinct (pool_refs s')"
    unfolding pool_refs_def rp en ev by (rule fresh_refs_distinct)
  have f: "\<forall>r\<in>set (pool_refs s'). \<exists>a. r = Some a \<and> length (heap s) \<le> a \<and> a < length (heap s') \<and>
                heap s' ! a = ReplayBuffer (buffer_size s)"
  proof
    fix r assume "r \<in> set (pool_refs s')"
    then obtain x where x: "r = Some x" "length (heap s) \<le> x"
        "x < length (heap s) + (nat (n_traintasks s) + nat (n_traintasks s) + nat (n_evaltasks s))"
      unfolding pool_refs_def rp en ev by (drule_tac fresh_refs_range) blast
    have "heap s' ! x = ReplayBuffer (buffer_size s)"
      unfolding hp using x(2,3) by (rule nth_append_replicate0)
    moreover have "x < length (heap s')" unfolding hp using x(3) by simp
    ultimately show "\<exists>a. r = Some a \<and> length (heap s) \<le> a \<and> a < length (heap s') \<and>
                heap s' ! a = ReplayBuffer (buffer_size s)" using x(1,2) by blast
  qed
  show ?thesis using eq sz nt ne pools_fresh_intro[OF d f] by blast
qed


text \<open>
  C6.  For every number of training and evaluation tasks, \<open>_setup_model\<close> succeeds and leaves
  pools of exactly \<open>n_traintasks\<close>, \<open>n_traintasks\<close> and \<open>n_evaltasks\<close> slots, every slot a
  reference to its own freshly constructed buffer (no two slots share a buffer, so a write
  through one slot changes no other).  On pools of that size \<open>reset_buffers\<close> succeeds, replaces
  every slot by a reference to a new buffer, and every buffer then stores zero transitions,
  whatever the old buffers held.
\<close>

theorem pools_setup_and_reset:
  "(\<exists>s'. setup_model s = Inr s' \<and> pools_sized s' \<and> n_traintasks s' = n_traintasks s \<and>
          n_evaltasks s' = n_evaltasks s \<and> pools_fresh s s') \<and>
   (pools_sized s \<longrightarrow>
      (\<exists>s'. reset_buffers s = Inr s' \<and> pools_sized s' \<and> n_traintasks s' = n_traintasks s \<and>
          n_evaltasks s' = n_evaltasks s \<and> pools_fresh s s' \<and>
          (\<forall>r\<in>set (pool_refs s'). \<exists>a. r = Some a \<and> rb_stored (heap s' ! a) = 0)))"
proof (intro conjI impI)
  show "\<exists>s'. setup_model s = Inr s' \<and> pools_sized s' \<and> n_traintasks s' = n_traintasks s \<and>
          n_evaltasks s' = n_evaltasks s \<and> pools_fresh s s'"
    by (rule setup_model_fresh)
next
  assume "pools_sized s"
  then obtain s' where s': "reset_buffers s = Inr s'" "pools_sized s'"
      "n_traintasks s' = n_traintasks s" "n_evaltasks s' = n_evaltasks s" "pools_fresh s s'"
    using reset_buffers_fresh by blast
  have "\<forall>r\<in>set (pool_refs s'). \<exists>a. r = Some a \<and> rb_stored (heap s' ! a) = 0"
    using s'(5) unfolding pools_fresh_def by (metis rb_stored_fresh)
  then show "\<exists>s'. reset_buffers s = Inr s' \<and> pools_sized s' \<and> n_traintasks s' = n_traintasks s \<and>
          n_evaltasks s' = n_evaltasks s \<and> pools_fresh s s' \<and>
          (\<forall>r\<in>set (pool_refs s'). \<exists>a. r = Some a \<and> rb_stored (heap s' ! a) = 0)"
    using s' by blast
qed

lemma toy_filled_eval:
  "pools_sized toy_filled" "rb_stored (heap toy_filled ! 0) = 1" "rb_stored (heap toy_filled ! 3) = 2"
  by (simp_all add: toy_filled_def setup_model_eq init_algorithm_def pools_sized_def buf_add_def
        log_def rb_stored_def rb_add_def ReplayBuffer_def Let_def nth_append)

theorem pools_setup_and_reset_witness:
  "pools_sized toy_filled \<and> rb_stored (heap toy_filled ! 0) = 1 \<and> rb_stored (heap toy_filled ! 3) = 2 \<and>
   (\<exists>s'. reset_buffers toy_filled = Inr s' \<and> pools_sized s' \<and> pools_fresh toy_filled s' \<and>
          (\<forall>r\<in>set (pool_refs s'). \<exists>a. r = Some a \<and> rb_stored (heap s' ! a) = 0))"
  using pools_setup_and_reset[of toy_filled] toy_filled_eval by blast

section \<open>Verification: the rollout collector\<close>

lemma cancel_free_append:
  "cancel_free M tr (xs @ ys) \<longleftrightarrow> cancel_free M tr xs \<and> cancel_free M (tr @ xs) ys"
  by (induction xs arbitrary: tr) auto

lemma cancel_free_no_on_step: "OnStep \<notin> set xs \<Longrightarrow> cancel_free M tr xs"
  by (induction xs arbitrary: tr) auto

lemma rollout_frame_refl: "rollout_frame s s"
  by (simp add: rollout_frame_def)

lemma rollout_frame_trans: "rollout_frame s s' \<Longrightarrow> rollout_frame s' s'' \<Longrightarrow> rollout_frame s s''"
  unfolding rollout_frame_def
  by (cases s, cases s', cases s'') simp

lemma take_action_run:
  assumes "take_action M ac L s = (v, s')"
  shows "\<exists>new. trace s' = trace s @ new \<and> (\<forall>e\<in>set new. in_loop e) \<and> OnStep \<notin> set new \<and>
           UpdateInfoBuffer \<notin> set new \<and> EnvReset \<notin> set new \<and>
           filter is_buf_add new = [] \<and> length (filter is_env_step new) = 1 \<and>
           s' = s\<lparr>trace := trace s', num_timesteps := num_timesteps s + 1\<rparr>"
  using assms
  by (auto simp: take_action_def Let_def log_def split: prod.splits if_splits)

lemma step_hooks_run:
  assumes "step_hooks M s = (c, s')"
  shows "s' = s\<lparr>trace := trace s'\<rparr> \<and>
         (trace s' = trace s @ [UpdateLocals] \<and> \<not> c \<or>
          trace s' = trace s @ [UpdateLocals, OnStep] \<and> (c \<longleftrightarrow> on_step_res M (trace s') = Returns PyFalse))"
  using assms
  by (auto simp: step_hooks_def Let_def log_def split: outcome.splits)

lemma store_all_run:
  assumes "store_all rbs t s = (r, s')"
  shows "\<exists>new. trace s' = trace s @ new \<and> (\<forall>e\<in>set new. is_buf_add e) \<and>
           s' = s\<lparr>trace := trace s', heap := heap s'\<rparr> \<and>
           (case r of Inl e \<Rightarrow> e = AttributeError \<and> None \<in> set rbs
                   | Inr u \<Rightarrow> length new = length rbs \<and> None \<notin> set rbs)"
  using assms
proof (induction rbs t s rule: store_all.induct)
  case (1 t s)
  then show ?case by auto
next
  case (2 rbs t s)
  then show ?case by auto
next
  case (3 a rbs t s)
  from 3(1)[OF 3(2)[simplified]] obtain new where
    n: "trace s' = trace (buf_add a t s) @ new" "\<forall>e\<in>set new. is_buf_add e"
       "s' = (buf_add a t s)\<lparr>trace := trace s', heap := heap s'\<rparr>"
       "case r of Inl e \<Rightarrow> e = AttributeError \<and> None \<in> set rbs
                   | Inr u \<Rightarrow> length new = length rbs \<and> None \<notin> set rbs"
    by blast
  show ?case
    apply (rule exI[of _ "BufAdd a t # new"])
    using n by (auto simp: buf_add_def log_def split: sum.splits)
qed

lemma is_buf_add_facts:
  "is_buf_add e \<Longrightarrow> in_loop e \<and> e \<noteq> OnStep \<and> e \<noteq> EnvReset \<and> e \<noteq> UpdateInfoBuffer \<and> \<not> is_env_step e"
  by (cases e) auto

lemma write_buffers_run:
  assumes "write_buffers rb t s = (r, s')"
  shows "\<exists>new. trace s' = trace s @ new \<and> (\<forall>e\<in>set new. is_buf_add e) \<and>
           s' = s\<lparr>trace := trace s', heap := heap s'\<rparr> \<and>
           (case r of Inl e \<Rightarrow> e = AttributeError \<and> (\<exists>rbs. rb = Some rbs \<and> None \<in> set rbs)
                   | Inr u \<Rightarrow> length new = buf_count rb)"
proof (cases rb)
  case None
  then show ?thesis using assms by (auto simp: write_buffers_def buf_count_def)
next
  case (Some rbs)
  then have "store_all rbs t s = (r, s')" using assms by (simp add: write_buffers_def)
  from store_all_run[OF this] show ?thesis
    using Some by (auto simp: buf_count_def split: sum.splits)
qed

lemma filter_all_true: "\<forall>e\<in>set xs. P e \<Longrightarrow> filter P xs = xs"
  by (induction xs) auto

lemma filter_all_false: "\<forall>e\<in>set xs. \<not> P e \<Longrightarrow> filter P xs = []"
  by (induction xs) auto

lemma rollout_body_run:
  assumes "rollout_body M n_steps rb ac L s = (x, s')"
  shows "\<exists>new. trace s' = trace s @ new \<and> (\<forall>e\<in>set new. in_loop e) \<and> EnvReset \<notin> set new \<and>
           rollout_frame s s' \<and> num_timesteps s' = num_timesteps s + 1 \<and>
           length (filter is_env_step new) = 1 \<and>
           (case x of
              Cancelled r \<Rightarrow>
                r = \<lparr>rr_mean_reward = 0, rr_total_steps = total_steps L + 1,
                      rr_total_episodes = total_episodes L, rr_continue_training = False\<rparr> \<and>
                new \<noteq> [] \<and> last new = OnStep \<and> on_step_res M (trace s') = Returns PyFalse \<and>
                cancel_free M (trace s) (butlast new) \<and> filter is_buf_add new = [] \<and>
                UpdateInfoBuffer \<notin> set new \<and> heap s' = heap s \<and> episode_num s' = episode_num s
            | Raised e \<Rightarrow> e = AttributeError \<and> (\<exists>rbs. rb = Some rbs \<and> None \<in> set rbs)
            | Broke L' \<Rightarrow>
                cancel_free M (trace s) new \<and> length (filter is_buf_add new) = buf_count rb \<and>
                count_list new UpdateInfoBuffer = 1 \<and>
                episode_num s' = episode_num s + 1 \<and> total_steps L' = total_steps L + 1 \<and>
                total_episodes L' = total_episodes L + 1 \<and> 0 < n_steps \<and> n_steps \<le> total_steps L'
            | Fell L' \<Rightarrow>
                cancel_free M (trace s) new \<and> length (filter is_buf_add new) = buf_count rb \<and>
                count_list new UpdateInfoBuffer = 1 \<and>
                episode_num s' = episode_num s \<and> total_steps L' = total_steps L + 1 \<and>
                total_episodes L' = total_episodes L \<and> \<not> (0 < n_steps \<and> n_steps \<le> total_steps L'))"
proof -
  obtain a nxt rw d inf s5 where ta: "take_action M ac L s = ((a, nxt, rw, d, inf), s5)"
    by (cases "take_action M ac L s") auto
  obtain c s6 where sh: "step_hooks M s5 = (c, s6)" by (cases "step_hooks M s5")
  from take_action_run[OF ta] obtain n1 where
    n1: "trace s5 = trace s @ n1" "\<forall>e\<in>set n1. in_loop e" "OnStep \<notin> set n1"
        "UpdateInfoBuffer \<notin> set n1" "EnvReset \<notin> set n1" "filter is_buf_add n1 = []"
        "length (filter is_env_step n1) = 1"
        "s5 = s\<lparr>trace := trace s5, num_timesteps := num_timesteps s + 1\<rparr>"
    by blast
  from step_hooks_run[OF sh] have
    s6: "s6 = s5\<lparr>trace := trace s6\<rparr>" and
    h: "trace s6 = trace s5 @ [UpdateLocals] \<and> \<not> c \<or>
        trace s6 = trace s5 @ [UpdateLocals, OnStep] \<and> (c \<longleftrightarrow> on_step_res M (trace s6) = Returns PyFalse)"
    by blast+
  have fr5: "rollout_frame s s5" using n1(8) unfolding rollout_frame_def by (cases s, cases s5) simp
  have fr6: "rollout_frame s s6" using fr5 s6 unfolding rollout_frame_def by (cases s, cases s5, cases s6) simp
  have nt6: "num_timesteps s6 = num_timesteps s + 1" "heap s6 = heap s" "episode_num s6 = episode_num s"
    using n1(8) s6 by (cases s, cases s5, cases s6, simp)+
  show ?thesis
  proof (cases c)
    case True
    then have x: "x = Cancelled \<lparr>rr_mean_reward = 0, rr_total_steps = total_steps L + 1,
                      rr_total_episodes = total_episodes L, rr_continue_training = False\<rparr>" "s' = s6"
      using assms ta sh by (simp_all add: rollout_body_def)
    from True h have tr: "trace s6 = trace s5 @ [UpdateLocals, OnStep]"
      and ans: "on_step_res M (trace s6) = Returns PyFalse" by auto
    show ?thesis
      apply (rule exI[of _ "n1 @ [UpdateLocals, OnStep]"])
      using x tr ans n1 fr6 nt6
      by (simp add: butlast_append cancel_free_append cancel_free_no_on_step)
  next
    case False
    obtain r s8 where wb: "write_buffers rb
         \<lparr>t_obs = cur_o L, t_next_obs = nxt, t_action = a, t_reward = rw, t_done = d, t_infos = inf\<rparr>
         (log UpdateInfoBuffer s6) = (r, s8)"
      by (cases "write_buffers rb
         \<lparr>t_obs = cur_o L, t_next_obs = nxt, t_action = a, t_reward = rw, t_done = d, t_infos = inf\<rparr>
         (log UpdateInfoBuffer s6)")
    from write_buffers_run[OF wb] obtain n3 where
      n3: "trace s8 = trace (log UpdateInfoBuffer s6) @ n3" "\<forall>e\<in>set n3. is_buf_add e"
          "s8 = (log UpdateInfoBuffer s6)\<lparr>trace := trace s8, heap := heap s8\<rparr>"
          "case r of Inl e \<Rightarrow> e = AttributeError \<and> (\<exists>rbs. rb = Some rbs \<and> None \<in> set rbs)
                   | Inr u \<Rightarrow> length n3 = buf_count rb"
      by blast
    obtain n2 where n2: "trace s6 = trace s5 @ n2" "n2 = [UpdateLocals] \<or> n2 = [UpdateLocals, OnStep]"
       "cancel_free M (trace s5) n2"
      using h False by auto
    define new where "new = n1 @ n2 @ [UpdateInfoBuffer] @ n3"
    have tr8: "trace s8 = trace s @ new"
      using n1(1) n2(1) n3(1) by (simp add: new_def log_def)
    have loop: "\<forall>e\<in>set new. in_loop e" "EnvReset \<notin> set new"
      using n1(2,5) n2(2) n3(2) is_buf_add_facts by (auto simp: new_def)
    have no3: "OnStep \<notin> set n3" using n3(2) is_buf_add_facts by blast
    have cf: "cancel_free M (trace s) new"
      using n1(1,3) n2(3) no3
      by (simp add: new_def cancel_free_append cancel_free_no_on_step)
    have f3: "filter is_buf_add n3 = n3" "filter is_env_step n3 = []"
      using n3(2) is_buf_add_facts by (auto intro: filter_all_true filter_all_false)
    have cnt: "length (filter is_env_step new) = 1" "length (filter is_buf_add new) = length n3"
      using n1(6,7) n2(2) f3 by (auto simp: new_def)
    have "UpdateInfoBuffer \<notin> set n3" using n3(2) is_buf_add_facts by blast
    then have iu: "count_list new UpdateInfoBuffer = 1"
      using n1(4) n2(2) by (auto simp: new_def)
    have fr8: "rollout_frame s s8"
      using fr6 n3(3) unfolding rollout_frame_def log_def by (cases s, cases s6, cases s8) simp
    have nt8: "num_timesteps s8 = num_timesteps s + 1" "episode_num s8 = episode_num s"
      using nt6 n3(3) unfolding log_def by (cases s6, cases s8, simp)+
    show ?thesis
    proof (cases r)
      case (Inl e)
      then have "x = Raised e" "s' = s8"
        using assms ta sh wb False by (simp_all add: rollout_body_def)
      then show ?thesis
        apply (intro exI[of _ new])
        using tr8 loop cnt fr8 nt8 n3(4) Inl by simp
    next
      case (Inr u)
      then have ct: "check_truncation n_steps
           (L\<lparr>episode_timesteps := episode_timesteps L + 1, total_steps := total_steps L + 1,
               is_done := d, episode_reward := episode_reward L + rw, cur_o := nxt\<rparr>) s8 = (x, s')"
        using assms ta sh wb False by (simp add: rollout_body_def)
      show ?thesis
        apply (intro exI[of _ new])
        using ct tr8 loop cnt cf fr8 nt8 n3(4) Inr iu
        by (auto simp: check_truncation_def rollout_frame_def split: if_splits)
    qed
  qed
qed

lemma inner_loop_rule:
  assumes init: "I L s" and bound: "total_steps L < n_steps" and pos: "0 < n_steps"
    and step: "\<And>L s x s'. I L s \<Longrightarrow> \<not> is_done L \<Longrightarrow> total_steps L < n_steps \<Longrightarrow>
                 rollout_body M n_steps rb ac L s = (x, s') \<Longrightarrow>
                 (case x of Fell L' \<Rightarrow> I L' s' | _ \<Rightarrow> Q x s')"
    and fin: "\<And>L s. I L s \<Longrightarrow> is_done L \<Longrightarrow> Q (Fell L) s"
  shows "\<exists>x s'. inner_loop M n_steps rb ac L s = Some (x, s') \<and> Q x s'"
  using init bound
proof (induction "nat (n_steps - total_steps L)" arbitrary: L s rule: less_induct)
  case less
  show ?case
  proof (cases "is_done L")
    case True
    then show ?thesis using fin[OF less.prems(1)] by (subst inner_loop.simps) simp
  next
    case False
    obtain x s' where b: "rollout_body M n_steps rb ac L s = (x, s')"
      by (cases "rollout_body M n_steps rb ac L s")
    note st = step[OF less.prems(1) False less.prems(2) b]
    show ?thesis
    proof (cases x)
      case (Fell L')
      from rollout_body_run[OF b] Fell have ts: "total_steps L' = total_steps L + 1"
         "\<not> (0 < n_steps \<and> n_steps \<le> total_steps L')" by auto
      then have lt: "total_steps L' < n_steps" using pos by simp
      have m: "nat (n_steps - total_steps L') < nat (n_steps - total_steps L)"
        using ts(1) less.prems(2) by simp
      have "I L' s'" using st Fell by simp
      from less.hyps[OF m this lt] show ?thesis
        using False b Fell by (subst inner_loop.simps) simp
    qed (use st False b in \<open>subst inner_loop.simps, simp\<close>)+
  qed
qed

lemma episode_done_run:
  assumes "episode_done an L s = (L', s')"
  shows "total_steps L' = total_steps L \<and>
         (\<exists>new. trace s' = trace s @ new \<and> (\<forall>e\<in>set new. in_loop e) \<and> OnStep \<notin> set new \<and>
                 filter is_env_step new = [] \<and> filter is_buf_add new = [] \<and>
                 UpdateInfoBuffer \<notin> set new) \<and>
         rollout_frame s s' \<and> num_timesteps s' = num_timesteps s \<and> heap s' = heap s \<and>
         (if is_done L then total_episodes L' = total_episodes L + 1 \<and> episode_num s' = episode_num s + 1
          else L' = L \<and> s' = s)"
  using assms
  by (auto simp: episode_done_def Let_def log_def rollout_frame_def split: if_splits)

lemma outer_loop_rule:
  assumes init: "J L s" and pos: "0 < n_steps"
    and step: "\<And>L s x s'. J L s \<Longrightarrow> total_steps L < n_steps \<Longrightarrow> total_episodes L < n_episodes \<Longrightarrow>
                 inner_loop M n_steps rb ac (L\<lparr>is_done := False, episode_reward := 0, episode_timesteps := 0\<rparr>) s
                   = Some (x, s') \<Longrightarrow>
                 (case x of
                    Cancelled r \<Rightarrow> Q (Returned r) s'
                  | Raised e \<Rightarrow> Q (Threw e) s'
                  | Broke L' \<Rightarrow> J (fst (episode_done an L' s')) (snd (episode_done an L' s'))
                  | Fell L' \<Rightarrow> J (fst (episode_done an L' s')) (snd (episode_done an L' s')))"
    and fin: "\<And>L s. J L s \<Longrightarrow> \<not> (total_steps L < n_steps \<and> total_episodes L < n_episodes) \<Longrightarrow> Q (Finished L) s"
  shows "\<exists>x s'. outer_loop M n_episodes n_steps an rb ac L s = Some (x, s') \<and> Q x s'"
  using init
proof (induction "nat (n_steps - total_steps L)" arbitrary: L s rule: less_induct)
  case less
  show ?case
  proof (cases "total_steps L < n_steps \<and> total_episodes L < n_episodes")
    case False
    then show ?thesis using fin[OF less.prems] by (subst outer_loop.simps) auto
  next
    case True
    define L1 where "L1 = L\<lparr>is_done := False, episode_reward := 0, episode_timesteps := 0\<rparr>"
    have "\<exists>x s'. inner_loop M n_steps rb ac L1 s = Some (x, s') \<and>
            (case x of Broke L' \<Rightarrow> total_steps L < total_steps L'
                     | Fell L' \<Rightarrow> total_steps L < total_steps L' | _ \<Rightarrow> True)"
    proof (rule inner_loop_rule[where I="\<lambda>L' s'. total_steps L \<le> total_steps L' \<and>
                                             (is_done L' \<longrightarrow> total_steps L < total_steps L')"])
      show "total_steps L \<le> total_steps L1 \<and> (is_done L1 \<longrightarrow> total_steps L < total_steps L1)"
        by (simp add: L1_def)
      show "total_steps L1 < n_steps" using True by (simp add: L1_def)
      show "0 < n_steps" by (rule pos)
    next
      fix La :: frame and sa :: state and x s'
      assume a: "total_steps L \<le> total_steps La \<and> (is_done La \<longrightarrow> total_steps L < total_steps La)"
        and b: "rollout_body M n_steps rb ac La sa = (x, s')"
      from rollout_body_run[OF b] a
      show "case x of Fell L' \<Rightarrow> total_steps L \<le> total_steps L' \<and> (is_done L' \<longrightarrow> total_steps L < total_steps L')
              | _ \<Rightarrow> (case x of Broke L' \<Rightarrow> total_steps L < total_steps L'
                     | Fell L' \<Rightarrow> total_steps L < total_steps L' | _ \<Rightarrow> True)"
        by (auto split: flow.splits)
    next
      fix La :: frame and sa :: state
      assume "total_steps L \<le> total_steps La \<and> (is_done La \<longrightarrow> total_steps L < total_steps La)" "is_done La"
      then show "case Fell La of Broke L' \<Rightarrow> total_steps L < total_steps L'
                     | Fell L' \<Rightarrow> total_steps L < total_steps L' | _ \<Rightarrow> True" by simp
    qed
    then obtain x s' where in1: "inner_loop M n_steps rb ac L1 s = Some (x, s')"
      and pr: "case x of Broke L' \<Rightarrow> total_steps L < total_steps L'
                     | Fell L' \<Rightarrow> total_steps L < total_steps L' | _ \<Rightarrow> True" by blast
    note st = step[OF less.prems conjunct1[OF True] conjunct2[OF True] in1[unfolded L1_def]]
    have cont: ?thesis
      if L': "x = Broke L' \<or> x = Fell L'" for L'
    proof -
      obtain L2 s2 where ed: "episode_done an L' s' = (L2, s2)" by (cases "episode_done an L' s'")
      have J2: "J L2 s2" using st L' ed by auto
      have "total_steps L < total_steps L'" using pr L' by auto
      then have "total_steps L < total_steps L2" using episode_done_run[OF ed] by simp
      then have m: "nat (n_steps - total_steps L2) < nat (n_steps - total_steps L)"
        using True by simp
      from less.hyps[OF m J2] show ?thesis
        using True in1 L' ed by (subst outer_loop.simps) (auto simp: L1_def)
    qed
    show ?thesis
    proof (cases x)
      case (Cancelled r)
      then show ?thesis using st True in1 by (subst outer_loop.simps) (simp add: L1_def)
    next
      case (Raised e)
      then show ?thesis using st True in1 by (subst outer_loop.simps) (simp add: L1_def)
    next
      case (Broke L')
      then show ?thesis using cont by blast
    next
      case (Fell L')
      then show ?thesis using cont by blast
    qed
  qed
qed

lemma loop_inv_nonneg: "loop_inv M rb s0 L s \<Longrightarrow> 0 \<le> total_steps L"
  unfolding loop_inv_def by (metis of_nat_0_le_iff)

lemma loop_inv_reset:
  "loop_inv M rb s0 L s \<Longrightarrow>
   loop_inv M rb s0 (L\<lparr>is_done := False, episode_reward := 0, episode_timesteps := 0\<rparr>) s"
  by (simp add: loop_inv_def)

lemma loop_inv_body:
  assumes inv: "loop_inv M rb s0 L s" and b: "rollout_body M n_steps rb ac L s = (x, s')"
  shows "case x of Cancelled r \<Rightarrow> cancel_post M rb s0 r s'
                 | Raised e \<Rightarrow> raise_post rb s0 e s'
                 | Broke L' \<Rightarrow> loop_inv M rb s0 L' s'
                 | Fell L' \<Rightarrow> loop_inv M rb s0 L' s'"
proof -
  from inv obtain old where
    o: "trace s = trace s0 @ old" "\<forall>e\<in>set old. in_loop e" "cancel_free M (trace s0) old"
       "int (length (filter is_env_step old)) = total_steps L"
       "length (filter is_buf_add old) = nat (total_steps L) * buf_count rb"
       "count_list old UpdateInfoBuffer = nat (total_steps L)"
    and fr: "rollout_frame s0 s" and nt: "num_timesteps s = num_timesteps s0 + total_steps L"
    and en: "episode_num s = episode_num s0 + total_episodes L"
    unfolding loop_inv_def by blast
  have nn: "0 \<le> total_steps L" using o(4) by (metis of_nat_0_le_iff)
  from rollout_body_run[OF b] obtain new where
    n: "trace s' = trace s @ new" "\<forall>e\<in>set new. in_loop e" "rollout_frame s s'"
       "num_timesteps s' = num_timesteps s + 1" "length (filter is_env_step new) = 1"
    and c: "case x of
              Cancelled r \<Rightarrow>
                r = \<lparr>rr_mean_reward = 0, rr_total_steps = total_steps L + 1,
                      rr_total_episodes = total_episodes L, rr_continue_training = False\<rparr> \<and>
                new \<noteq> [] \<and> last new = OnStep \<and> on_step_res M (trace s') = Returns PyFalse \<and>
                cancel_free M (trace s) (butlast new) \<and> filter is_buf_add new = [] \<and>
                UpdateInfoBuffer \<notin> set new \<and> heap s' = heap s \<and> episode_num s' = episode_num s
            | Raised e \<Rightarrow> e = AttributeError \<and> (\<exists>rbs. rb = Some rbs \<and> None \<in> set rbs)
            | Broke L' \<Rightarrow>
                cancel_free M (trace s) new \<and> length (filter is_buf_add new) = buf_count rb \<and>
                count_list new UpdateInfoBuffer = 1 \<and>
                episode_num s' = episode_num s + 1 \<and> total_steps L' = total_steps L + 1 \<and>
                total_episodes L' = total_episodes L + 1 \<and> 0 < n_steps \<and> n_steps \<le> total_steps L'
            | Fell L' \<Rightarrow>
                cancel_free M (trace s) new \<and> length (filter is_buf_add new) = buf_count rb \<and>
                count_list new UpdateInfoBuffer = 1 \<and>
                episode_num s' = episode_num s \<and> total_steps L' = total_steps L + 1 \<and>
                total_episodes L' = total_episodes L \<and> \<not> (0 < n_steps \<and> n_steps \<le> total_steps L')"
    by blast
  have fr': "rollout_frame s0 s'" using fr n(3) by (rule rollout_frame_trans)
  have natS: "nat (total_steps L + 1) * buf_count rb = nat (total_steps L) * buf_count rb + buf_count rb"
    using nn by (simp add: nat_add_distrib)
  have keep: "loop_inv M rb s0 L' s'"
    if "cancel_free M (trace s) new" "length (filter is_buf_add new) = buf_count rb"
       "count_list new UpdateInfoBuffer = 1"
       "total_steps L' = total_steps L + 1" "episode_num s' = episode_num s0 + total_episodes L'" for L'
    unfolding loop_inv_def
    apply (intro conjI exI[of _ "old @ new"])
    using o n that fr' nt natS nn by (auto simp: cancel_free_append nat_add_distrib)
  show ?thesis
  proof (cases x)
    case (Cancelled r)
    with c have r: "r = \<lparr>rr_mean_reward = 0, rr_total_steps = total_steps L + 1,
                      rr_total_episodes = total_episodes L, rr_continue_training = False\<rparr>"
      and l: "new \<noteq> []" "last new = OnStep" "on_step_res M (trace s') = Returns PyFalse"
        "cancel_free M (trace s) (butlast new)" "filter is_buf_add new = []"
        "episode_num s' = episode_num s" "UpdateInfoBuffer \<notin> set new" by auto
    have sp: "new = butlast new @ [OnStep]" using l(1,2) by (metis append_butlast_last_id)
    have f1: "length (filter is_env_step (butlast new)) = 1"
      using n(5) by (subst (asm) sp) simp
    have f2: "filter is_buf_add (butlast new) = []"
      using l(5) by (subst (asm) sp) simp
    have f3: "\<forall>e\<in>set (butlast new). in_loop e" using n(2) by (meson in_set_butlastD)
    have f4: "UpdateInfoBuffer \<notin> set (butlast new)" using l(7) by (meson in_set_butlastD)
    have f5: "trace s' = trace s0 @ (old @ butlast new) @ [OnStep]"
      using n(1) o(1) sp by simp
    have split: "\<exists>before step. old @ butlast new = before @ step \<and>
                length (filter is_env_step step) = 1 \<and> filter is_buf_add step = [] \<and>
                UpdateInfoBuffer \<notin> set step"
      using f1 f2 f4 by blast
    have tr: "\<exists>nw. trace s' = trace s0 @ nw @ [OnStep] \<and> (\<forall>e\<in>set nw. in_loop e) \<and>
            cancel_free M (trace s0) nw \<and>
            int (length (filter is_env_step nw)) = rr_total_steps r \<and>
            count_list nw UpdateInfoBuffer = nat (rr_total_steps r - 1) \<and>
            length (filter is_buf_add nw) = nat (rr_total_steps r - 1) * buf_count rb \<and>
            (\<exists>before step. nw = before @ step \<and> length (filter is_env_step step) = 1 \<and>
                filter is_buf_add step = [] \<and> UpdateInfoBuffer \<notin> set step)"
      apply (rule exI[of _ "old @ butlast new"])
      using o l(4) r f1 f2 f3 f4 f5 split by (auto simp: cancel_free_append)
    have "cancel_post M rb s0 r s'"
      unfolding cancel_post_def
      using tr l(3,6) r fr' nt n(4) en nn by simp
    then show ?thesis using Cancelled by simp
  next
    case (Raised e)
    have "\<exists>nw. trace s' = trace s0 @ nw \<and> (\<forall>e\<in>set nw. in_loop e)"
      by (rule exI[of _ "old @ new"]) (use o n in auto)
    then show ?thesis using Raised c fr' by (simp add: raise_post_def)
  next
    case (Broke L')
    then show ?thesis using c keep[of L'] en by simp
  next
    case (Fell L')
    then show ?thesis using c keep[of L'] en by simp
  qed
qed

lemma loop_inv_episode_done:
  assumes inv: "loop_inv M rb s0 L s" and ed: "episode_done an L s = (L', s')"
  shows "loop_inv M rb s0 L' s'"
proof -
  from inv obtain old where
    o: "trace s = trace s0 @ old" "\<forall>e\<in>set old. in_loop e" "cancel_free M (trace s0) old"
       "int (length (filter is_env_step old)) = total_steps L"
       "length (filter is_buf_add old) = nat (total_steps L) * buf_count rb"
       "count_list old UpdateInfoBuffer = nat (total_steps L)"
    and fr: "rollout_frame s0 s" and nt: "num_timesteps s = num_timesteps s0 + total_steps L"
    and en: "episode_num s = episode_num s0 + total_episodes L"
    unfolding loop_inv_def by blast
  from episode_done_run[OF ed] obtain new where
    n: "total_steps L' = total_steps L" "trace s' = trace s @ new" "\<forall>e\<in>set new. in_loop e"
       "OnStep \<notin> set new" "filter is_env_step new = []" "filter is_buf_add new = []"
       "rollout_frame s s'" "num_timesteps s' = num_timesteps s"
       "UpdateInfoBuffer \<notin> set new"
       "if is_done L then total_episodes L' = total_episodes L + 1 \<and> episode_num s' = episode_num s + 1
          else L' = L \<and> s' = s"
    by blast
  have e': "episode_num s' = episode_num s0 + total_episodes L'"
    using n en by (auto split: if_splits)
  show ?thesis
    unfolding loop_inv_def
    apply (intro conjI exI[of _ "old @ new"])
    using o n e' nt rollout_frame_trans[OF fr n(7)]
    by (auto simp: cancel_free_append cancel_free_no_on_step)
qed

lemma outer_loop_run:
  assumes z: "total_steps L0 = 0" "total_episodes L0 = 0"
  shows "\<exists>x s'. outer_loop M n_episodes n_steps an rb ac L0 s0 = Some (x, s') \<and>
           (case x of Returned r \<Rightarrow> cancel_post M rb s0 r s'
                    | Threw e \<Rightarrow> raise_post rb s0 e s'
                    | Finished L \<Rightarrow> loop_inv M rb s0 L s' \<and>
                        \<not> (total_steps L < n_steps \<and> total_episodes L < n_episodes))"
proof (cases "0 < n_steps")
  case False
  have "loop_inv M rb s0 L0 s0"
    using z by (simp add: loop_inv_def rollout_frame_refl)
  then show ?thesis using False z by (subst outer_loop.simps) simp
next
  case True
  show ?thesis
  proof (rule outer_loop_rule[where J="loop_inv M rb s0"])
    show "loop_inv M rb s0 L0 s0" using z by (simp add: loop_inv_def rollout_frame_refl)
    show "0 < n_steps" by (rule True)
  next
    fix L :: frame and s :: state and x s'
    assume J: "loop_inv M rb s0 L s" and g: "total_steps L < n_steps"
      and il: "inner_loop M n_steps rb ac (L\<lparr>is_done := False, episode_reward := 0, episode_timesteps := 0\<rparr>) s
                 = Some (x, s')"
    have "\<exists>x s'. inner_loop M n_steps rb ac (L\<lparr>is_done := False, episode_reward := 0, episode_timesteps := 0\<rparr>) s
                 = Some (x, s') \<and>
            (case x of Cancelled r \<Rightarrow> cancel_post M rb s0 r s'
                 | Raised e \<Rightarrow> raise_post rb s0 e s'
                 | Broke L' \<Rightarrow> loop_inv M rb s0 L' s'
                 | Fell L' \<Rightarrow> loop_inv M rb s0 L' s')"
    proof (rule inner_loop_rule[where I="loop_inv M rb s0"])
      show "loop_inv M rb s0 (L\<lparr>is_done := False, episode_reward := 0, episode_timesteps := 0\<rparr>) s"
        using J by (rule loop_inv_reset)
      show "total_steps (L\<lparr>is_done := False, episode_reward := 0, episode_timesteps := 0\<rparr>) < n_steps"
        using g by simp
      show "0 < n_steps" by (rule True)
    next
      fix La :: frame and sa :: state and xa sa'
      assume "loop_inv M rb s0 La sa" "rollout_body M n_steps rb ac La sa = (xa, sa')"
      from loop_inv_body[OF this]
      show "case xa of Fell L' \<Rightarrow> loop_inv M rb s0 L' sa'
              | _ \<Rightarrow> (case xa of Cancelled r \<Rightarrow> cancel_post M rb s0 r sa'
                 | Raised e \<Rightarrow> raise_post rb s0 e sa'
                 | Broke L' \<Rightarrow> loop_inv M rb s0 L' sa'
                 | Fell L' \<Rightarrow> loop_inv M rb s0 L' sa')"
        by (cases xa) auto
    next
      fix La :: frame and sa :: state
      assume "loop_inv M rb s0 La sa"
      then show "case Fell La of Cancelled r \<Rightarrow> cancel_post M rb s0 r sa
                 | Raised e \<Rightarrow> raise_post rb s0 e sa
                 | Broke L' \<Rightarrow> loop_inv M rb s0 L' sa
                 | Fell L' \<Rightarrow> loop_inv M rb s0 L' sa" by simp
    qed
    with il have q: "case x of Cancelled r \<Rightarrow> cancel_post M rb s0 r s'
                 | Raised e \<Rightarrow> raise_post rb s0 e s'
                 | Broke L' \<Rightarrow> loop_inv M rb s0 L' s'
                 | Fell L' \<Rightarrow> loop_inv M rb s0 L' s'" by auto
    show "case x of
            Cancelled r \<Rightarrow> (case Returned r of Returned r \<Rightarrow> cancel_post M rb s0 r s'
                    | Threw e \<Rightarrow> raise_post rb s0 e s'
                    | Finished L \<Rightarrow> loop_inv M rb s0 L s' \<and>
                        \<not> (total_steps L < n_steps \<and> total_episodes L < n_episodes))
          | Raised e \<Rightarrow> (case Threw e of Returned r \<Rightarrow> cancel_post M rb s0 r s'
                    | Threw e \<Rightarrow> raise_post rb s0 e s'
                    | Finished L \<Rightarrow> loop_inv M rb s0 L s' \<and>
                        \<not> (total_steps L < n_steps \<and> total_episodes L < n_episodes))
          | Broke L' \<Rightarrow> loop_inv M rb s0 (fst (episode_done an L' s')) (snd (episode_done an L' s'))
          | Fell L' \<Rightarrow> loop_inv M rb s0 (fst (episode_done an L' s')) (snd (episode_done an L' s'))"
      using q by (cases x) (auto intro: loop_inv_episode_done[OF _ prod.collapse[symmetric]])
  next
    fix L :: frame and s :: state
    assume "loop_inv M rb s0 L s" "\<not> (total_steps L < n_steps \<and> total_episodes L < n_episodes)"
    then show "case Finished L of Returned r \<Rightarrow> cancel_post M rb s0 r s
                    | Threw e \<Rightarrow> raise_post rb s0 e s
                    | Finished L \<Rightarrow> loop_inv M rb s0 L s \<and>
                        \<not> (total_steps L < n_steps \<and> total_episodes L < n_episodes)" by simp
  qed
qed

lemma rollout_end_hooks_run:
  "rollout_end_hooks M s = s' \<Longrightarrow>
   s' = s\<lparr>trace := trace s'\<rparr> \<and>
   (trace s' = trace s @ [UpdateLocals] \<or> trace s' = trace s @ [UpdateLocals, OnRolloutEnd])"
  by (auto simp: rollout_end_hooks_def try_pass_def log_def Let_def split: outcome.splits)

lemma collect_rollouts_run:
  assumes env: "env_is_vec M" "env_num_envs M = 1"
  shows "\<exists>res s' pre s0. collect_rollouts M n_episodes n_steps an rb ac s = Some (res, s') \<and>
           trace s0 = trace s @ pre @ [EnvReset] \<and>
           (pre = [OnRolloutStart] \<or> pre = [ActorResetNoise, OnRolloutStart]) \<and>
           s0 = s\<lparr>trace := trace s0\<rparr> \<and>
           (case res of
              Inl e \<Rightarrow> raise_post rb s0 e s'
            | Inr r \<Rightarrow> if rr_continue_training r
                       then finish_post M n_episodes n_steps rb s0 r s'
                       else cancel_post M rb s0 r s')"
proof -
  define s1 where "s1 = (if use_sde s then log ActorResetNoise s else s)"
  define s2 where "s2 = log OnRolloutStart s1"
  define s3 where "s3 = try_pass (on_rollout_start_res M (trace s2)) s2"
  define s4 where "s4 = log EnvReset s3"
  define L0 where "L0 = \<lparr>cur_o = env_reset_res M (trace s4), total_steps = 0, total_episodes = 0,
                  episode_rewards = [], total_timesteps = [], episode_reward = 0,
                  episode_timesteps = 0, is_done = False\<rparr>"
  define pre where "pre = (if use_sde s then [ActorResetNoise, OnRolloutStart] else [OnRolloutStart])"
  have s3: "s3 = s2" by (simp add: s3_def try_pass_def split: outcome.splits)
  have tr4: "trace s4 = trace s @ pre @ [EnvReset]"
    by (simp add: s4_def s3 s2_def s1_def pre_def log_def)
  have fr4: "s4 = s\<lparr>trace := trace s4\<rparr>"
    by (simp add: s4_def s3 s2_def s1_def log_def)
  have pre: "pre = [OnRolloutStart] \<or> pre = [ActorResetNoise, OnRolloutStart]"
    by (simp add: pre_def)
  from outer_loop_run[of L0 M n_episodes n_steps an rb ac s4]
  obtain x s' where ol: "outer_loop M n_episodes n_steps an rb ac L0 s4 = Some (x, s')"
    and q: "case x of Returned r \<Rightarrow> cancel_post M rb s4 r s'
                    | Threw e \<Rightarrow> raise_post rb s4 e s'
                    | Finished L \<Rightarrow> loop_inv M rb s4 L s' \<and>
                        \<not> (total_steps L < n_steps \<and> total_episodes L < n_episodes)"
    by (auto simp: L0_def)
  have unfold: "collect_rollouts M n_episodes n_steps an rb ac s =
      (case outer_loop M n_episodes n_steps an rb ac L0 s4 of
             None \<Rightarrow> None
           | Some (Returned r, s') \<Rightarrow> Some (Inr r, s')
           | Some (Threw e, s') \<Rightarrow> Some (Inl e, s')
           | Some (Finished L', s') \<Rightarrow>
               (let mean_reward = (if total_episodes L' > 0 then mean (episode_rewards L') else 0);
                    s5 = rollout_end_hooks M s'
                in Some (Inr \<lparr>rr_mean_reward = mean_reward, rr_total_steps = total_steps L',
                               rr_total_episodes = total_episodes L', rr_continue_training = True\<rparr>, s5)))"
    using env by (simp add: collect_rollouts_def Let_def s1_def s2_def s3_def s4_def L0_def)
  show ?thesis
  proof (cases x)
    case (Returned r)
    then have "collect_rollouts M n_episodes n_steps an rb ac s = Some (Inr r, s')"
      using unfold ol by simp
    moreover have "cancel_post M rb s4 r s'" "\<not> rr_continue_training r"
      using q Returned by (simp_all add: cancel_post_def)
    ultimately show ?thesis using tr4 fr4 pre by (intro exI[of _ "Inr r"] exI[of _ s'] exI[of _ pre] exI[of _ s4]) simp
  next
    case (Threw e)
    then have "collect_rollouts M n_episodes n_steps an rb ac s = Some (Inl e, s')"
      using unfold ol by simp
    moreover have "raise_post rb s4 e s'" using q Threw by simp
    ultimately show ?thesis using tr4 fr4 pre by (intro exI[of _ "Inl e"] exI[of _ s'] exI[of _ pre] exI[of _ s4]) simp
  next
    case (Finished L)
    define r where "r = \<lparr>rr_mean_reward = (if total_episodes L > 0 then mean (episode_rewards L) else 0),
              rr_total_steps = total_steps L, rr_total_episodes = total_episodes L,
              rr_continue_training = True\<rparr>"
    have c: "collect_rollouts M n_episodes n_steps an rb ac s = Some (Inr r, rollout_end_hooks M s')"
      using unfold ol Finished by (simp add: r_def Let_def)
    from rollout_end_hooks_run[OF refl, of M s'] have
      e: "rollout_end_hooks M s' = s'\<lparr>trace := trace (rollout_end_hooks M s')\<rparr>"
         "trace (rollout_end_hooks M s') = trace s' @ [UpdateLocals] \<or>
          trace (rollout_end_hooks M s') = trace s' @ [UpdateLocals, OnRolloutEnd]" by blast+
    have "finish_post M n_episodes n_steps rb s4 r (rollout_end_hooks M s')"
      unfolding finish_post_def
      apply (intro exI[of _ L] exI[of _ s'] exI[of _ "drop (length (trace s')) (trace (rollout_end_hooks M s'))"])
      using q Finished e by (auto simp: r_def)
    moreover have "rr_continue_training r" by (simp add: r_def)
    ultimately show ?thesis using c tr4 fr4 pre
      by (intro exI[of _ "Inr r"] exI[of _ "rollout_end_hooks M s'"] exI[of _ pre] exI[of _ s4]) simp
  qed
qed

subsection \<open>Claims about one rollout\<close>

text \<open>
  C3 (the code departs from the claim).  An environment whose episode ends at its first step,
  rolled out with \<open>n_steps = 1\<close>: \<open>done\<close> and the truncation bound meet on the same step.
  The truncation branch counts the episode and breaks, then \<open>if done:\<close> counts it again:
  two episodes counted, the one reward and the one length recorded twice, \<open>_episode_num\<close>
  advanced by two.
\<close>

theorem done_at_truncation_counts_twice:
  "episode_stats (outer_loop (toy_world 1 0 False) 1 1 False (Some []) False frame0 (init_algorithm 2 0 0))
     = Some (2, [1, 1], [1, 1], 2)"
  by code_simp

lemma cancel_free_rollout:
  assumes pre: "pre = [OnRolloutStart] \<or> pre = [ActorResetNoise, OnRolloutStart]"
  shows "cancel_free M tr (pre @ [EnvReset] @ nw) \<longleftrightarrow> cancel_free M (tr @ pre @ [EnvReset]) nw"
  using pre by (auto simp: cancel_free_append)

text \<open>
  C4.  Every rollout on a single vectorised environment returns.  If no \<open>on_step()\<close> call of
  the rollout answered \<open>False\<close> (answers \<open>None\<close>, truthy or other values, and exceptions,
  included), the rollout runs to the end of its loops and returns with
  \<open>continue_training = True\<close>.  Otherwise the first \<open>on_step()\<close> answering \<open>False\<close> is
  the last call of the rollout: the function returns at once, with \<open>continue_training = False\<close>
  and mean reward 0, the episode count is that of the episodes completed before, and the
  episode statistics were updated for every step but the cancelling one.
\<close>

theorem on_step_false_cancels:
  assumes "env_is_vec M" and "env_num_envs M = 1"
  shows "\<exists>res s' new. collect_rollouts M n_episodes n_steps an rb ac s = Some (res, s') \<and>
           trace s' = trace s @ new \<and>
           (case res of
              Inl e \<Rightarrow> e = AttributeError
            | Inr r \<Rightarrow>
                if cancel_free M (trace s) new
                then rr_continue_training r \<and>
                     \<not> (rr_total_steps r < n_steps \<and> rr_total_episodes r < n_episodes)
                else new \<noteq> [] \<and> last new = OnStep \<and>
                     on_step_res M (trace s') = Returns PyFalse \<and>
                     cancel_free M (trace s) (butlast new) \<and>
                     \<not> rr_continue_training r \<and> rr_mean_reward r = 0 \<and>
                     rr_total_steps r = int (length (filter is_env_step new)) \<and>
                     rr_total_episodes r = episode_num s' - episode_num s \<and>
                     int (count_list new UpdateInfoBuffer) = rr_total_steps r - 1)"
proof -
  from collect_rollouts_run[OF assms, of n_episodes n_steps an rb ac s]
  obtain res s' pre s0 where
    c: "collect_rollouts M n_episodes n_steps an rb ac s = Some (res, s')"
    and t0: "trace s0 = trace s @ pre @ [EnvReset]"
    and pre: "pre = [OnRolloutStart] \<or> pre = [ActorResetNoise, OnRolloutStart]"
    and s0: "s0 = s\<lparr>trace := trace s0\<rparr>"
    and q: "case res of
              Inl e \<Rightarrow> raise_post rb s0 e s'
            | Inr r \<Rightarrow> if rr_continue_training r
                       then finish_post M n_episodes n_steps rb s0 r s'
                       else cancel_post M rb s0 r s'"
    by blast
  have en0: "episode_num s0 = episode_num s" by (subst s0) simp
  show ?thesis
  proof (cases res)
    case (Inl e)
    then obtain nw where "trace s' = trace s0 @ nw" "e = AttributeError"
      using q by (auto simp: raise_post_def)
    then show ?thesis using c Inl t0
      by (intro exI[of _ res] exI[of _ s'] exI[of _ "pre @ [EnvReset] @ nw"]) simp
  next
    case (Inr r)
    show ?thesis
    proof (cases "rr_continue_training r")
      case True
      then have "finish_post M n_episodes n_steps rb s0 r s'" using q Inr by simp
      then obtain L sL post where
        a: "loop_inv M rb s0 L sL"
           "\<not> (total_steps L < n_steps \<and> total_episodes L < n_episodes)"
           "trace s' = trace sL @ post" "post = [UpdateLocals] \<or> post = [UpdateLocals, OnRolloutEnd]"
           "r = \<lparr>rr_mean_reward = (if total_episodes L > 0 then mean (episode_rewards L) else 0),
              rr_total_steps = total_steps L, rr_total_episodes = total_episodes L,
              rr_continue_training = True\<rparr>"
        unfolding finish_post_def by blast
      from a(1) obtain nw where
        b: "trace sL = trace s0 @ nw" "cancel_free M (trace s0) nw"
        unfolding loop_inv_def by blast
      have f: "trace sL = trace s0 @ nw" "cancel_free M (trace s0) nw"
           "\<not> (total_steps L < n_steps \<and> total_episodes L < n_episodes)"
           "trace s' = trace sL @ post" "post = [UpdateLocals] \<or> post = [UpdateLocals, OnRolloutEnd]"
           "rr_total_steps r = total_steps L" "rr_total_episodes r = total_episodes L"
        using a b by simp_all
      have "cancel_free M (trace s) (pre @ [EnvReset] @ nw @ post)"
        using f(2,5) pre t0 by (auto simp: cancel_free_append)
      then show ?thesis using c Inr True f t0
        by (intro exI[of _ res] exI[of _ s'] exI[of _ "pre @ [EnvReset] @ nw @ post"]) simp
    next
      case False
      then have cp: "cancel_post M rb s0 r s'" using q Inr by simp
      then obtain nw where
        f: "trace s' = trace s0 @ nw @ [OnStep]" "cancel_free M (trace s0) nw"
           "int (length (filter is_env_step nw)) = rr_total_steps r"
           "count_list nw UpdateInfoBuffer = nat (rr_total_steps r - 1)"
        unfolding cancel_post_def by blast
      have g: "on_step_res M (trace s') = Returns PyFalse" "rr_mean_reward r = 0"
           "1 \<le> rr_total_steps r" "episode_num s' = episode_num s0 + rr_total_episodes r"
        using cp unfolding cancel_post_def by blast+
      define new where "new = pre @ [EnvReset] @ nw @ [OnStep]"
      have tr: "trace s' = trace s @ new" using f(1) t0 by (simp add: new_def)
      have bl: "butlast new = pre @ [EnvReset] @ nw"
        by (simp add: new_def butlast_append)
      have cfb: "cancel_free M (trace s) (butlast new)"
        using f(2) pre t0 by (auto simp: bl cancel_free_append)
      have ncf: "\<not> cancel_free M (trace s) new"
      proof -
        have "new = butlast new @ [OnStep]" by (simp add: new_def butlast_append)
        then have "cancel_free M (trace s) new \<longleftrightarrow>
             cancel_free M (trace s) (butlast new) \<and> on_step_res M (trace s @ new) \<noteq> Returns PyFalse"
          by (metis (no_types, lifting) append.assoc cancel_free.simps(1,2) cancel_free_append)
        then show ?thesis using g(1) tr by simp
      qed
      have cnt: "rr_total_steps r = int (length (filter is_env_step new))"
           "int (count_list new UpdateInfoBuffer) = rr_total_steps r - 1"
        using f(3,4) g(3) pre by (auto simp: new_def)
      show ?thesis
        apply (intro exI[of _ res] exI[of _ s'] exI[of _ new])
        using c Inr False tr ncf cfb g en0 cnt by (simp add: new_def)
    qed
  qed
qed


text \<open>
  C9.  In a rollout cancelled by the step hook the calls since the last \<open>env.step\<close>, the one
  of the cancelling step, contain no buffer write, and the rollout ends with that \<open>on_step()\<close>
  call; the buffers received the transitions of the earlier steps only, while
  \<open>num_timesteps\<close> and \<open>total_steps\<close> count the cancelling step too.
\<close>

theorem cancelled_step_not_stored:
  assumes "env_is_vec M" and "env_num_envs M = 1"
    and "collect_rollouts M n_episodes n_steps an rb ac s = Some (Inr r, s')"
    and "\<not> rr_continue_training r"
  shows "\<exists>before step. trace s' = trace s @ before @ step @ [OnStep] \<and>
           on_step_res M (trace s') = Returns PyFalse \<and>
           length (filter is_env_step step) = 1 \<and> filter is_buf_add step = [] \<and>
           int (length (filter is_env_step before)) = rr_total_steps r - 1 \<and>
           length (filter is_buf_add before) = nat (rr_total_steps r - 1) * buf_count rb \<and>
           1 \<le> rr_total_steps r \<and>
           num_timesteps s' = num_timesteps s + rr_total_steps r"
proof -
  from collect_rollouts_run[OF assms(1,2), of n_episodes n_steps an rb ac s]
  obtain res s'' pre s0 where
    c: "collect_rollouts M n_episodes n_steps an rb ac s = Some (res, s'')"
    and t0: "trace s0 = trace s @ pre @ [EnvReset]"
    and pre: "pre = [OnRolloutStart] \<or> pre = [ActorResetNoise, OnRolloutStart]"
    and s0: "s0 = s\<lparr>trace := trace s0\<rparr>"
    and q0: "case res of
              Inl e \<Rightarrow> raise_post rb s0 e s''
            | Inr r \<Rightarrow> if rr_continue_training r
                       then finish_post M n_episodes n_steps rb s0 r s''
                       else cancel_post M rb s0 r s''"
    by blast
  have rs: "res = Inr r" "s'' = s'" using c assms(3) by simp_all
  have q: "if rr_continue_training r
                       then finish_post M n_episodes n_steps rb s0 r s'
                       else cancel_post M rb s0 r s'"
    using q0 unfolding rs by simp
  have nt0: "num_timesteps s0 = num_timesteps s" by (subst s0) simp
  have cp: "cancel_post M rb s0 r s'" using q assms(4) by simp
  then obtain nw before step where
    f: "trace s' = trace s0 @ nw @ [OnStep]"
       "int (length (filter is_env_step nw)) = rr_total_steps r"
       "length (filter is_buf_add nw) = nat (rr_total_steps r - 1) * buf_count rb"
       "nw = before @ step" "length (filter is_env_step step) = 1" "filter is_buf_add step = []"
    unfolding cancel_post_def by blast
  have g: "on_step_res M (trace s') = Returns PyFalse" "1 \<le> rr_total_steps r"
      "num_timesteps s' = num_timesteps s0 + rr_total_steps r"
    using cp unfolding cancel_post_def by blast+
  show ?thesis
    apply (rule exI[of _ "pre @ [EnvReset] @ before"], rule exI[of _ step])
    using f g t0 pre nt0 by auto
qed

lemma toy_cancel_run:
  "collect_rollouts (toy_world 0 2 False) 1 3 False (Some [Some 0]) False toy_start
     = Some (Inr \<lparr>rr_mean_reward = 0, rr_total_steps = 2, rr_total_episodes = 0,
                   rr_continue_training = False\<rparr>, toy_cancelled)"
  by code_simp

lemma toy_faulty_run:
  "map_option fst (collect_rollouts (toy_world 0 0 True) 1 3 False (Some [Some 0]) False toy_start)
     = Some (Inr \<lparr>rr_mean_reward = 3, rr_total_steps = 3, rr_total_episodes = 1,
                   rr_continue_training = True\<rparr>)"
  by code_simp

theorem on_step_false_cancels_witness:
  "env_is_vec (toy_world 0 2 False) \<and> env_num_envs (toy_world 0 2 False) = 1 \<and>
   collect_rollouts (toy_world 0 2 False) 1 3 False (Some [Some 0]) False toy_start
     = Some (Inr \<lparr>rr_mean_reward = 0, rr_total_steps = 2, rr_total_episodes = 0,
                   rr_continue_training = False\<rparr>, toy_cancelled) \<and>
   (\<exists>res s' new.
       collect_rollouts (toy_world 0 2 False) 1 3 False (Some [Some 0]) False toy_start = Some (res, s') \<and>
       trace s' = trace toy_start @ new \<and>
       (case res of
          Inl e \<Rightarrow> e = AttributeError
        | Inr r \<Rightarrow>
            if cancel_free (toy_world 0 2 False) (trace toy_start) new
            then rr_continue_training r \<and> \<not> (rr_total_steps r < 3 \<and> rr_total_episodes r < 1)
            else new \<noteq> [] \<and> last new = OnStep \<and>
                 on_step_res (toy_world 0 2 False) (trace s') = Returns PyFalse \<and>
                 cancel_free (toy_world 0 2 False) (trace toy_start) (butlast new) \<and>
                 \<not> rr_continue_training r \<and> rr_mean_reward r = 0 \<and>
                 rr_total_steps r = int (length (filter is_env_step new)) \<and>
                 rr_total_episodes r = episode_num s' - episode_num toy_start \<and>
                 int (count_list new UpdateInfoBuffer) = rr_total_steps r - 1))"
proof -
  have e: "env_is_vec (toy_world 0 2 False)" "env_num_envs (toy_world 0 2 False) = 1"
    by (simp_all add: toy_world_def)
  from on_step_false_cancels[OF e, of 1 3 False "Some [Some 0]" False toy_start] toy_cancel_run e
  show ?thesis by blast
qed


theorem cancelled_step_not_stored_witness:
  "env_is_vec (toy_world 0 2 False) \<and> env_num_envs (toy_world 0 2 False) = 1 \<and>
   collect_rollouts (toy_world 0 2 False) 1 3 False (Some [Some 0]) False toy_start
     = Some (Inr \<lparr>rr_mean_reward = 0, rr_total_steps = 2, rr_total_episodes = 0,
                   rr_continue_training = False\<rparr>, toy_cancelled) \<and>
   rb_stored (heap toy_cancelled ! 0) = 1 \<and> num_timesteps toy_cancelled = 2 \<and>
   (\<exists>before step. trace toy_cancelled = trace toy_start @ before @ step @ [OnStep] \<and>
           on_step_res (toy_world 0 2 False) (trace toy_cancelled) = Returns PyFalse \<and>
           length (filter is_env_step step) = 1 \<and> filter is_buf_add step = [] \<and>
           int (length (filter is_env_step before)) = 2 - 1 \<and>
           length (filter is_buf_add before) = nat (2 - 1) * buf_count (Some [Some 0]) \<and>
           num_timesteps toy_cancelled = num_timesteps toy_start + 2)"
proof -
  have e: "env_is_vec (toy_world 0 2 False)" "env_num_envs (toy_world 0 2 False) = 1"
    by (simp_all add: toy_world_def)
  have v: "rb_stored (heap toy_cancelled ! 0) = 1" "num_timesteps toy_cancelled = 2"
    by (simp_all add: toy_cancelled_def rb_stored_def)
  from cancelled_step_not_stored[OF e toy_cancel_run] e toy_cancel_run v
  show ?thesis by simp
qed

section \<open>Verification: the sample orchestrator\<close>

lemma inside_reset_step: "inside e \<Longrightarrow> reset_step (Some Running) e = Some Running"
  by (cases e) (auto simp: inside_def)

lemma inside_reset_run: "\<forall>e\<in>set tr. inside e \<Longrightarrow> foldl reset_step (Some Running) tr = Some Running"
  by (induction tr) (auto simp: inside_reset_step)

lemma skeleton_append: "skeleton (xs @ ys) = skeleton xs @ skeleton ys"
  by (simp add: skeleton_def)

lemma skeleton_inside: "\<forall>e\<in>set tr. inside e \<Longrightarrow> skeleton tr = []"
  by (induction tr) (auto simp: skeleton_def)

lemma trace_only_frame: "s' = s\<lparr>trace := t\<rparr> \<Longrightarrow> rollout_frame s s'"
  by (simp add: rollout_frame_def)

lemma collect_rollouts_shape:
  assumes env: "env_is_vec M" "env_num_envs M = 1"
  shows "\<exists>res s' pre body. collect_rollouts M n_episodes n_steps an rb ac s = Some (res, s') \<and>
           trace s' = trace s @ pre @ [EnvReset] @ body \<and>
           (pre = [OnRolloutStart] \<or> pre = [ActorResetNoise, OnRolloutStart]) \<and>
           (\<forall>e\<in>set body. inside e) \<and> rollout_frame s s' \<and>
           (case res of Inl e \<Rightarrow> e = AttributeError \<and> (\<exists>rbs. rb = Some rbs \<and> None \<in> set rbs)
                      | Inr r \<Rightarrow> True)"
proof -
  from collect_rollouts_run[OF env, of n_episodes n_steps an rb ac s]
  obtain res s' pre s0 where
    c: "collect_rollouts M n_episodes n_steps an rb ac s = Some (res, s')"
    and t0: "trace s0 = trace s @ pre @ [EnvReset]"
    and pre: "pre = [OnRolloutStart] \<or> pre = [ActorResetNoise, OnRolloutStart]"
    and s0: "s0 = s\<lparr>trace := trace s0\<rparr>"
    and q: "case res of
              Inl e \<Rightarrow> raise_post rb s0 e s'
            | Inr r \<Rightarrow> if rr_continue_training r
                       then finish_post M n_episodes n_steps rb s0 r s'
                       else cancel_post M rb s0 r s'"
    by blast
  have fr0: "rollout_frame s s0" using s0 by (rule trace_only_frame)
  have "\<exists>body. trace s' = trace s0 @ body \<and> (\<forall>e\<in>set body. inside e) \<and> rollout_frame s0 s' \<and>
           (case res of Inl e \<Rightarrow> e = AttributeError \<and> (\<exists>rbs. rb = Some rbs \<and> None \<in> set rbs)
                      | Inr r \<Rightarrow> True)"
  proof (cases res)
    case (Inl e)
    then show ?thesis using q by (auto simp: raise_post_def inside_def)
  next
    case (Inr r)
    show ?thesis
    proof (cases "rr_continue_training r")
      case True
      then have "finish_post M n_episodes n_steps rb s0 r s'" using q Inr by simp
      then obtain L sL post where
        a: "loop_inv M rb s0 L sL" "trace s' = trace sL @ post"
           "post = [UpdateLocals] \<or> post = [UpdateLocals, OnRolloutEnd]" "s' = sL\<lparr>trace := trace s'\<rparr>"
        unfolding finish_post_def by blast
      from a(1) obtain nw where b: "trace sL = trace s0 @ nw" "\<forall>e\<in>set nw. in_loop e" "rollout_frame s0 sL"
        unfolding loop_inv_def by blast
      have "rollout_frame sL s'" using a(4) by (rule trace_only_frame)
      then have "rollout_frame s0 s'" using b(3) rollout_frame_trans by blast
      then show ?thesis using a b Inr
        by (intro exI[of _ "nw @ post"]) (auto simp: inside_def)
    next
      case False
      then have "cancel_post M rb s0 r s'" using q Inr by simp
      then obtain nw where
        "trace s' = trace s0 @ nw @ [OnStep]" "\<forall>e\<in>set nw. in_loop e" "rollout_frame s0 s'"
        unfolding cancel_post_def by blast
      then show ?thesis using Inr by (intro exI[of _ "nw @ [OnStep]"]) (auto simp: inside_def)
    qed
  qed
  then obtain body where
    "trace s' = trace s0 @ body" "\<forall>e\<in>set body. inside e" "rollout_frame s0 s'"
    "case res of Inl e \<Rightarrow> e = AttributeError \<and> (\<exists>rbs. rb = Some rbs \<and> None \<in> set rbs)
                      | Inr r \<Rightarrow> True" by blast
  then show ?thesis using c t0 pre rollout_frame_trans[OF fr0]
    by (intro exI[of _ res] exI[of _ s'] exI[of _ pre] exI[of _ body]) simp
qed

lemma rollout_frame_fields:
  assumes "rollout_frame s s'"
  shows "max_path_length s' = max_path_length s" "has_action_noise s' = has_action_noise s"
    "task_idx s' = task_idx s" "RBList_replay s' = RBList_replay s"
    "RBList_encoder s' = RBList_encoder s" "n_env_steps_total s' = n_env_steps_total s"
    "n_train_steps_total s' = n_train_steps_total s" "initial_experience s' = initial_experience s"
    "n_traintasks s' = n_traintasks s"
  using arg_cong[OF assms[unfolded rollout_frame_def], of max_path_length]
        arg_cong[OF assms[unfolded rollout_frame_def], of has_action_noise]
        arg_cong[OF assms[unfolded rollout_frame_def], of task_idx]
        arg_cong[OF assms[unfolded rollout_frame_def], of RBList_replay]
        arg_cong[OF assms[unfolded rollout_frame_def], of RBList_encoder]
        arg_cong[OF assms[unfolded rollout_frame_def], of n_env_steps_total]
        arg_cong[OF assms[unfolded rollout_frame_def], of n_train_steps_total]
        arg_cong[OF assms[unfolded rollout_frame_def], of initial_experience]
        arg_cong[OF assms[unfolded rollout_frame_def], of n_traintasks]
  by simp_all

lemma obtain_marks_Suc: "obtain_marks r (Suc k) = obtain_marks r k @ traj_marks r (Suc k)"
  by (simp add: obtain_marks_def)

lemma skeleton_rollout:
  assumes "pre = [OnRolloutStart] \<or> pre = [ActorResetNoise, OnRolloutStart]" "\<forall>e\<in>set body. inside e"
  shows "skeleton (pre @ [EnvReset] @ body) = [OnRolloutStart, EnvReset]"
  using assms skeleton_inside[of body] by (auto simp: skeleton_def inside_def)

lemma resets_first_rollout:
  assumes "resets_first new" "pre = [OnRolloutStart] \<or> pre = [ActorResetNoise, OnRolloutStart]"
    "\<forall>e\<in>set body. inside e" "\<forall>e\<in>set post. e = SampleZ"
  shows "resets_first (new @ pre @ [EnvReset] @ body @ post)"
proof -
  have post: "foldl reset_step (Some Running) post = Some Running"
    using assms(4) by (induction post) auto
  from assms(1) consider "foldl reset_step (Some Outside) new = Some Outside"
    | "foldl reset_step (Some Outside) new = Some Running"
    by (auto simp: resets_first_def)
  then show ?thesis
    using assms(2) inside_reset_run[OF assms(3)] post
    by cases (auto simp: resets_first_def)
qed

lemma obtain_loop_run:
  assumes env: "env_is_vec M" "env_num_envs M = 1"
    and rs: "resample \<noteq> 0" and bufs: "None \<notin> set rbs"
    and tm: "(\<exists>m. max_samples = Fin m) \<and> 0 < max_path_length s0 \<or> (\<exists>t. max_trajs = Fin t)"
    and fr: "rollout_frame s0 s" and nt: "0 \<le> nt" and nst: "nst = nt * max_path_length s0"
    and tr: "trace s = trace s0 @ new" and sk: "skeleton new = obtain_marks resample (nat nt)"
    and rf: "resets_first new"
  shows "\<exists>k s' new'. obtain_loop M max_samples max_trajs ac resample rbs nst nt s
             = Some (Inr (k * max_path_length s0), s') \<and>
           nt \<le> k \<and> rollout_frame s0 s' \<and> trace s' = trace s0 @ new' \<and>
           skeleton new' = obtain_marks resample (nat k) \<and> resets_first new' \<and>
           \<not> (py_lt (Fin (k * max_path_length s0)) max_samples \<and> py_lt (Fin k) max_trajs) \<and>
           (nt < k \<longrightarrow> py_lt (Fin ((k - 1) * max_path_length s0)) max_samples \<and> py_lt (Fin (k - 1)) max_trajs)"
  using fr nt nst tr sk rf
proof (induction "obtain_measure max_samples max_trajs nst nt" arbitrary: nst nt s new rule: less_induct)
  case less
  note fr = less.prems(1) and nt = less.prems(2) and nst = less.prems(3)
    and tr = less.prems(4) and sk = less.prems(5) and rf = less.prems(6)
  have mpl: "max_path_length s = max_path_length s0" "has_action_noise s = has_action_noise s0"
    using rollout_frame_fields[OF fr] by simp_all
  show ?case
  proof (cases "py_lt (Fin nst) max_samples \<and> py_lt (Fin nt) max_trajs")
    case False
    then have "obtain_loop M max_samples max_trajs ac resample rbs nst nt s = Some (Inr nst, s)"
      by (subst obtain_loop.simps) auto
    then show ?thesis using False fr nt nst tr sk rf
      by (intro exI[of _ nt] exI[of _ s] exI[of _ new]) simp
  next
    case True
    from collect_rollouts_shape[OF env, of 1 "max_path_length s" "has_action_noise s" "Some rbs" ac s]
    obtain res s' pre body where
      c: "collect_rollouts M 1 (max_path_length s) (has_action_noise s) (Some rbs) ac s = Some (res, s')"
      and t': "trace s' = trace s @ pre @ [EnvReset] @ body"
      and pre: "pre = [OnRolloutStart] \<or> pre = [ActorResetNoise, OnRolloutStart]"
      and body: "\<forall>e\<in>set body. inside e" and fr': "rollout_frame s s'"
      and er: "case res of Inl e \<Rightarrow> e = AttributeError \<and> (\<exists>rbs'. Some rbs = Some rbs' \<and> None \<in> set rbs')
                      | Inr r \<Rightarrow> True"
      by blast
    obtain r where res: "res = Inr r" using er bufs by (cases res) auto
    define s'' where "s'' = (if (nt + 1) mod resample = 0 then log SampleZ s' else s')"
    define post where "post = (if (nt + 1) mod resample = 0 then [SampleZ] else [])"
    define new'' where "new'' = new @ pre @ [EnvReset] @ body @ post"
    have fr0': "rollout_frame s0 s'" using fr fr' by (rule rollout_frame_trans)
    have "rollout_frame s' s''"
      by (auto simp: s''_def log_def intro: trace_only_frame rollout_frame_refl)
    then have fr'': "rollout_frame s0 s''" using fr0' rollout_frame_trans by blast
    have mpl': "max_path_length s' = max_path_length s0" using rollout_frame_fields[OF fr0'] by simp
    have tr'': "trace s'' = trace s0 @ new''"
      using tr t' by (simp add: s''_def post_def new''_def log_def)
    have natS: "nat (nt + 1) = Suc (nat nt)" using nt by simp
    have sk'': "skeleton new'' = obtain_marks resample (nat (nt + 1))"
    proof -
      have "skeleton post = post" by (simp add: post_def skeleton_def inside_def)
      moreover have "traj_marks resample (Suc (nat nt)) = [OnRolloutStart, EnvReset] @ post"
        using nt by (simp add: traj_marks_def post_def add.commute)
      ultimately show ?thesis
        using sk skeleton_rollout[OF pre body]
        by (simp add: new''_def skeleton_append natS obtain_marks_Suc del: append_Cons append_assoc)
    qed
    have rf'': "resets_first new''"
      unfolding new''_def by (rule resets_first_rollout[OF rf pre body]) (simp add: post_def)
    have m: "obtain_measure max_samples max_trajs (nst + max_path_length s') (nt + 1)
               < obtain_measure max_samples max_trajs nst nt"
      using True tm mpl' by (cases max_trajs; cases max_samples) (auto simp: obtain_measure_def)
    have nst': "nst + max_path_length s' = (nt + 1) * max_path_length s0"
      using nst mpl' by (simp add: algebra_simps)
    from less.hyps[OF m fr'' _ nst' tr'' sk'' rf''] nt
    obtain k sf newf where
      ih: "obtain_loop M max_samples max_trajs ac resample rbs (nst + max_path_length s') (nt + 1) s''
             = Some (Inr (k * max_path_length s0), sf)"
        "nt + 1 \<le> k" "rollout_frame s0 sf" "trace sf = trace s0 @ newf"
        "skeleton newf = obtain_marks resample (nat k)" "resets_first newf"
        "\<not> (py_lt (Fin (k * max_path_length s0)) max_samples \<and> py_lt (Fin k) max_trajs)"
        "nt + 1 < k \<longrightarrow> py_lt (Fin ((k - 1) * max_path_length s0)) max_samples \<and> py_lt (Fin (k - 1)) max_trajs"
      by auto
    have last: "py_lt (Fin ((k - 1) * max_path_length s0)) max_samples \<and> py_lt (Fin (k - 1)) max_trajs"
    proof (cases "nt + 1 < k")
      case True then show ?thesis using ih(8) by simp
    next
      case False
      then have "k - 1 = nt" using ih(2) by simp
      then show ?thesis using \<open>py_lt (Fin nst) max_samples \<and> py_lt (Fin nt) max_trajs\<close> nst by simp
    qed
    have "obtain_loop M max_samples max_trajs ac resample rbs nst nt s
             = Some (Inr (k * max_path_length s0), sf)"
      using True c res rs ih(1) by (subst obtain_loop.simps) (simp add: s''_def)
    then show ?thesis using ih last
      by (intro exI[of _ k] exI[of _ sf] exI[of _ newf]) simp
  qed
qed

lemma collect_rollouts_error:
  assumes "collect_rollouts M ne ns an rb ac s = Some (Inl e, s')"
  shows "e = NotAVecEnv \<or> e = NotSingleEnv \<or> e = AttributeError"
proof (cases "env_is_vec M \<and> env_num_envs M = 1")
  case True
  from collect_rollouts_shape[of M ne ns an rb ac s] True assms show ?thesis by auto
next
  case False
  then show ?thesis using assms by (auto simp: collect_rollouts_def split: if_splits)
qed

lemma obtain_loop_error:
  assumes "obtain_loop M max_samples max_trajs ac resample rbs nst nt s = Some y"
  shows "\<forall>e s'. y = (Inl e, s') \<longrightarrow> e \<noteq> BothQuotasInfinite"
proof (rule obtain_loop.raw_induct[where P = "\<lambda>M max_samples max_trajs ac resample rbs nst nt s y.
          \<forall>e s'. y = (Inl e, s') \<longrightarrow> e \<noteq> BothQuotasInfinite", OF _ assms])
  fix obtain_loop' M max_samples max_trajs ac resample rbs nst nt s y
  assume 1: "\<And>M max_samples max_trajs ac resample rbs nst nt s y.
               obtain_loop' M max_samples max_trajs ac resample rbs nst nt s = Some y \<Longrightarrow>
               \<forall>e s'. y = (Inl e, s') \<longrightarrow> e \<noteq> BothQuotasInfinite"
    "(if py_lt (Fin nst) max_samples \<and> py_lt (Fin nt) max_trajs
      then case collect_rollouts M 1 (max_path_length s) (has_action_noise s) (Some rbs) ac s of
           None \<Rightarrow> None | Some (Inl e, s') \<Rightarrow> Some (Inl e, s')
           | Some (Inr rollout, s') \<Rightarrow>
               if resample = 0 then Some (Inl ZeroDivisionError, s')
               else obtain_loop' M max_samples max_trajs ac resample rbs
                     (nst + max_path_length s') (nt + 1)
                     (if (nt + 1) mod resample = 0 then log SampleZ s' else s')
      else Some (Inr nst, s)) = Some y"
  show "\<forall>e s'. y = (Inl e, s') \<longrightarrow> e \<noteq> BothQuotasInfinite"
  proof (cases "py_lt (Fin nst) max_samples \<and> py_lt (Fin nt) max_trajs")
    case False
    then show ?thesis using 1(2) by auto
  next
    case True
    show ?thesis
    proof (cases "collect_rollouts M 1 (max_path_length s) (has_action_noise s) (Some rbs) ac s")
      case None
      then show ?thesis using 1(2) True by simp
    next
      case (Some a)
      obtain res s1 where a: "a = (res, s1)" by (cases a)
      show ?thesis
      proof (cases res)
        case (Inl e1)
        then have "y = (Inl e1, s1)" using 1(2) True Some a by simp
        moreover have "e1 = NotAVecEnv \<or> e1 = NotSingleEnv \<or> e1 = AttributeError"
          using collect_rollouts_error Some a Inl by blast
        ultimately show ?thesis by auto
      next
        case (Inr r)
        show ?thesis
        proof (cases "resample = 0")
          case True
          then show ?thesis
            using 1(2) \<open>py_lt (Fin nst) max_samples \<and> py_lt (Fin nt) max_trajs\<close> Some a Inr by auto
        next
          case False
          then have "obtain_loop' M max_samples max_trajs ac resample rbs
                        (nst + max_path_length s1) (nt + 1)
                        (if (nt + 1) mod resample = 0 then log SampleZ s1 else s1) = Some y"
            using 1(2) True Some a Inr by simp
          from 1(1)[OF this] show ?thesis .
        qed
      qed
    qed
  qed
qed

text \<open>
  C7.  With both quotas infinite \<open>obtain_samples\<close> fails on its assertion and the object is
  exactly as before the call: no environment step, no buffer write, no call on the actor.
  With a finite quota the call never ends in that error.
\<close>

theorem both_quotas_infinite_rejected:
  "obtain_samples M Inf Inf ac resample rbs s = Some (Inl BothQuotasInfinite, s) \<and>
   (max_samples \<noteq> Inf \<or> max_trajs \<noteq> Inf \<longrightarrow>
      (\<forall>s'. obtain_samples M max_samples max_trajs ac resample rbs s \<noteq> Some (Inl BothQuotasInfinite, s')))"
proof (intro conjI impI allI)
  show "obtain_samples M Inf Inf ac resample rbs s = Some (Inl BothQuotasInfinite, s)"
    by (simp add: obtain_samples_def)
next
  fix s'
  assume "max_samples \<noteq> Inf \<or> max_trajs \<noteq> Inf"
  then have "py_lt max_samples Inf \<or> py_lt max_trajs Inf"
    by (cases max_samples; cases max_trajs) auto
  then have "obtain_samples M max_samples max_trajs ac resample rbs s
               = obtain_loop M max_samples max_trajs ac resample rbs 0 0 s"
    by (simp add: obtain_samples_def)
  then show "obtain_samples M max_samples max_trajs ac resample rbs s \<noteq> Some (Inl BothQuotasInfinite, s')"
    using obtain_loop_error[of M max_samples max_trajs ac resample rbs 0 0 s "(Inl BothQuotasInfinite, s')"]
    by auto
qed

lemma count_skeleton: "\<not> inside x \<Longrightarrow> count_list (skeleton tr) x = count_list tr x"
  by (induction tr) (auto simp: skeleton_def)

lemma count_obtain_marks:
  "count_list (obtain_marks r k) OnRolloutStart = k \<and> count_list (obtain_marks r k) EnvReset = k"
  by (induction k) (auto simp: obtain_marks_Suc traj_marks_def, simp_all add: obtain_marks_def)

lemma obtain_samples_run:
  assumes env: "env_is_vec M" "env_num_envs M = 1"
    and rs: "resample \<noteq> 0" and bufs: "None \<notin> set rbs"
    and tm: "(\<exists>m. max_samples = Fin m) \<and> 0 < max_path_length s \<or> (\<exists>t. max_trajs = Fin t)"
  shows "\<exists>k s' new. obtain_samples M max_samples max_trajs ac resample rbs s
             = Some (Inr (k * max_path_length s), s') \<and>
           0 \<le> k \<and> rollout_frame s s' \<and> trace s' = trace s @ new \<and>
           skeleton new = obtain_marks resample (nat k) \<and> resets_first new \<and>
           \<not> (py_lt (Fin (k * max_path_length s)) max_samples \<and> py_lt (Fin k) max_trajs) \<and>
           (0 < k \<longrightarrow> py_lt (Fin ((k - 1) * max_path_length s)) max_samples \<and> py_lt (Fin (k - 1)) max_trajs)"
proof -
  have fin: "py_lt max_samples Inf \<or> py_lt max_trajs Inf"
    using tm by (cases max_samples; cases max_trajs) auto
  have e: "skeleton [] = obtain_marks resample (nat 0)" "resets_first []"
    by (simp_all add: skeleton_def obtain_marks_def resets_first_def)
  from obtain_loop_run[where nt=0 and nst=0 and new="[]" and s=s and ?s0.0=s and ac=ac,
         OF env rs bufs tm rollout_frame_refl _ _ _ e]
  show ?thesis using fin by (simp add: obtain_samples_def)
qed

text \<open>
  C10.  A rollout on a single vectorised environment returns, and among its calls
  \<open>env.reset()\<close> occurs exactly once, before every \<open>env.step\<close>.  Hence in an
  \<open>obtain_samples\<close> call of \<open>k\<close> trajectories there are \<open>k\<close> rollouts and \<open>k\<close> resets, each
  rollout resetting the environment before its first step, so that no step follows a reset
  made by another rollout.
\<close>

theorem rollout_resets_env_once:
  assumes "env_is_vec M" and "env_num_envs M = 1"
  shows "(\<exists>res s' pre post. collect_rollouts M n_episodes n_steps an rb ac s = Some (res, s') \<and>
            trace s' = trace s @ pre @ EnvReset # post \<and>
            EnvReset \<notin> set pre \<and> filter is_env_step pre = [] \<and> EnvReset \<notin> set post) \<and>
         (resample \<noteq> 0 \<and> None \<notin> set rbs \<and>
          ((\<exists>m. max_samples = Fin m) \<and> 0 < max_path_length s \<or> (\<exists>t. max_trajs = Fin t)) \<longrightarrow>
            (\<exists>k s' new. obtain_samples M max_samples max_trajs ac' resample rbs s
                          = Some (Inr (k * max_path_length s), s') \<and>
               trace s' = trace s @ new \<and> 0 \<le> k \<and>
               count_list new OnRolloutStart = nat k \<and> count_list new EnvReset = nat k \<and>
               resets_first new))"
proof (intro conjI impI)
  from collect_rollouts_shape[OF assms, of n_episodes n_steps an rb ac s]
  obtain res s' pre body where
    c: "collect_rollouts M n_episodes n_steps an rb ac s = Some (res, s')"
    and t': "trace s' = trace s @ pre @ [EnvReset] @ body"
    and pre: "pre = [OnRolloutStart] \<or> pre = [ActorResetNoise, OnRolloutStart]"
    and body: "\<forall>e\<in>set body. inside e"
    by blast
  have "EnvReset \<notin> set body" using body by (auto simp: inside_def)
  then show "\<exists>res s' pre post. collect_rollouts M n_episodes n_steps an rb ac s = Some (res, s') \<and>
            trace s' = trace s @ pre @ EnvReset # post \<and>
            EnvReset \<notin> set pre \<and> filter is_env_step pre = [] \<and> EnvReset \<notin> set post"
    using c t' pre by (intro exI[of _ res] exI[of _ s'] exI[of _ pre] exI[of _ body]) auto
next
  assume h: "resample \<noteq> 0 \<and> None \<notin> set rbs \<and>
          ((\<exists>m. max_samples = Fin m) \<and> 0 < max_path_length s \<or> (\<exists>t. max_trajs = Fin t))"
  from obtain_samples_run[OF assms, of resample rbs max_samples s max_trajs ac'] h
  obtain k s' new where
    o: "obtain_samples M max_samples max_trajs ac' resample rbs s = Some (Inr (k * max_path_length s), s')"
       "0 \<le> k" "trace s' = trace s @ new" "skeleton new = obtain_marks resample (nat k)" "resets_first new"
    by blast
  have "count_list new OnRolloutStart = nat k" "count_list new EnvReset = nat k"
    using count_skeleton[of OnRolloutStart new] count_skeleton[of EnvReset new] o(4)
      count_obtain_marks[of resample "nat k"] by (simp_all add: inside_def)
  then show "\<exists>k s' new. obtain_samples M max_samples max_trajs ac' resample rbs s
                          = Some (Inr (k * max_path_length s), s') \<and>
               trace s' = trace s @ new \<and> 0 \<le> k \<and>
               count_list new OnRolloutStart = nat k \<and> count_list new EnvReset = nat k \<and>
               resets_first new"
    using o by blast
qed

lemma reset_step_None: "foldl reset_step None tr = None"
  by (induction tr) auto

lemma reset_run_from_running:
  "foldl reset_step (Some Outside) tr = Some q \<Longrightarrow>
   foldl reset_step (Some Running) tr = Some (if q = Outside then Running else q)"
proof (induction tr arbitrary: q rule: rev_induct)
  case Nil
  then show ?case by simp
next
  case (snoc x xs)
  show ?case
  proof (cases "foldl reset_step (Some Outside) xs")
    case None
    then show ?thesis using snoc.prems by simp
  next
    case (Some q0)
    from snoc.IH[OF Some] snoc.prems Some show ?thesis
      by (cases x; cases q0) (auto split: if_splits)
  qed
qed

lemma resets_first_append:
  assumes "resets_first a" "resets_first b"
  shows "resets_first (a @ b)"
proof -
  from assms(2) obtain q where q: "foldl reset_step (Some Outside) b = Some q" "q = Outside \<or> q = Running"
    by (auto simp: resets_first_def)
  from assms(1) consider "foldl reset_step (Some Outside) a = Some Outside"
    | "foldl reset_step (Some Outside) a = Some Running"
    by (auto simp: resets_first_def)
  then show ?thesis
    using q reset_run_from_running[OF q(1)] by cases (auto simp: resets_first_def)
qed

lemma resets_first_posterior: "resets_first [SampleContext i, InferPosterior c]"
  by (simp add: resets_first_def)

lemma target_buffers_frame:
  "rollout_frame s s' \<Longrightarrow> target_buffers add s' = target_buffers add s"
  using rollout_frame_fields[of s s'] by (auto simp: target_buffers_def split: sum.splits)

lemma update_posterior_run:
  "\<exists>c. trace (update_posterior M s) = trace s @ [SampleContext (task_idx s), InferPosterior c] \<and>
       rollout_frame s (update_posterior M s)"
  by (auto simp: update_posterior_def Let_def log_def intro: trace_only_frame)

lemma collect_loop_run:
  assumes env: "env_is_vec M" "env_num_envs M = 1"
    and rs: "resample \<noteq> 0" and mpl: "0 < max_path_length s0"
    and rate: "rate = Inf \<or> (\<exists>u. rate = Fin u \<and> 1 \<le> u)"
    and tb: "target_buffers add s0 = Inr rbs" "None \<notin> set rbs"
    and fr: "rollout_frame s0 s" and tr: "trace s = trace s0 @ new"
    and sk: "skeleton new = concat (map (pass_marks resample rate (task_idx s0)) passes)"
    and rf: "resets_first new"
    and nt: "nt = int (sum_list (map fst passes)) * max_path_length s0"
    and ps: "\<forall>p\<in>set passes. 1 \<le> fst p"
  shows "\<exists>passes' s' new'.
           collect_loop M N resample rate add nt s
             = Some (Inr (int (sum_list (map fst passes')) * max_path_length s0), s') \<and>
           N \<le> int (sum_list (map fst passes')) * max_path_length s0 \<and>
           (nt < N \<longrightarrow> passes' \<noteq> []) \<and>
           rollout_frame s0 s' \<and> trace s' = trace s0 @ new' \<and>
           skeleton new' = concat (map (pass_marks resample rate (task_idx s0)) passes') \<and>
           resets_first new' \<and> (\<forall>p\<in>set passes'. 1 \<le> fst p)"
  using fr tr sk rf nt ps
proof (induction "nat (N - nt)" arbitrary: nt s new passes rule: less_induct)
  case less
  note fr = less.prems(1) and tr = less.prems(2) and sk = less.prems(3) and rf = less.prems(4)
    and nt = less.prems(5) and ps = less.prems(6)
  show ?case
  proof (cases "nt < N")
    case False
    then have "collect_loop M N resample rate add nt s = Some (Inr nt, s)"
      by (subst collect_loop.simps) simp
    then show ?thesis using False fr tr sk rf nt ps
      by (intro exI[of _ passes] exI[of _ s] exI[of _ new]) simp
  next
    case True
    have tbs: "target_buffers add s = Inr rbs" using target_buffers_frame[OF fr] tb(1) by simp
    have mpls: "max_path_length s = max_path_length s0" "task_idx s = task_idx s0"
      using rollout_frame_fields[OF fr] by simp_all
    have tm: "(\<exists>m. Fin (N - nt) = Fin m) \<and> 0 < max_path_length s \<or> (\<exists>t. rate = Fin t)"
      using mpl mpls by simp
    from obtain_samples_run[OF env rs tb(2) tm, of False]
    obtain k s1 new1 where
      o: "obtain_samples M (Fin (N - nt)) rate False resample rbs s = Some (Inr (k * max_path_length s), s1)"
         "0 \<le> k" "rollout_frame s s1" "trace s1 = trace s @ new1"
         "skeleton new1 = obtain_marks resample (nat k)" "resets_first new1"
         "\<not> (py_lt (Fin (k * max_path_length s)) (Fin (N - nt)) \<and> py_lt (Fin k) rate)"
      by blast
    have kpos: "1 \<le> k"
    proof (rule ccontr)
      assume "\<not> 1 \<le> k"
      then have "k = 0" using o(2) by simp
      then show False using o(7) True rate by auto
    qed
    define s2 where "s2 = (if rate \<noteq> Inf then update_posterior M s1 else s1)"
    obtain c where c: "trace (update_posterior M s1) = trace s1 @ [SampleContext (task_idx s1), InferPosterior c]"
      "rollout_frame s1 (update_posterior M s1)"
      using update_posterior_run by blast
    define post where "post = (if rate \<noteq> Inf then [SampleContext (task_idx s0), InferPosterior c] else [])"
    have fr1: "rollout_frame s0 s1" using fr o(3) rollout_frame_trans by blast
    have ti1: "task_idx s1 = task_idx s0" using rollout_frame_fields[OF fr1] by simp
    have fr2: "rollout_frame s0 s2"
      using fr1 c(2) rollout_frame_trans by (auto simp: s2_def)
    have tr2: "trace s2 = trace s0 @ (new @ new1 @ post)"
      using tr o(4) c(1) ti1 by (simp add: s2_def post_def)
    have skp: "skeleton post = post"
      by (simp add: post_def skeleton_def inside_def)
    have pm: "pass_marks resample rate (task_idx s0) (nat k, c) = obtain_marks resample (nat k) @ post"
      by (simp add: pass_marks_def post_def)
    have sk2: "skeleton (new @ new1 @ post)
                 = concat (map (pass_marks resample rate (task_idx s0)) (passes @ [(nat k, c)]))"
      using sk o(5) skp pm by (simp add: skeleton_append)
    have rfp: "resets_first post" by (simp add: post_def resets_first_def)
    have rf2: "resets_first (new @ new1 @ post)"
      using rf o(6) rfp by (intro resets_first_append)
    have nt2: "nt + k * max_path_length s
                 = int (sum_list (map fst (passes @ [(nat k, c)]))) * max_path_length s0"
      using nt mpls kpos by (simp add: algebra_simps)
    have ps2: "\<forall>p\<in>set (passes @ [(nat k, c)]). 1 \<le> fst p" using ps kpos by auto
    have m: "nat (N - (nt + k * max_path_length s)) < nat (N - nt)"
    proof -
      have "0 < k * max_path_length s" using kpos mpl mpls by simp
      then show ?thesis using True by simp
    qed
    from less.hyps[OF m fr2 tr2 sk2 rf2 nt2 ps2]
    obtain passes' s' new' where
      ih: "collect_loop M N resample rate add (nt + k * max_path_length s) s2
             = Some (Inr (int (sum_list (map fst passes')) * max_path_length s0), s')"
          "N \<le> int (sum_list (map fst passes')) * max_path_length s0"
          "rollout_frame s0 s'" "trace s' = trace s0 @ new'"
          "skeleton new' = concat (map (pass_marks resample rate (task_idx s0)) passes')"
          "resets_first new'" "\<forall>p\<in>set passes'. 1 \<le> fst p"
      by blast
    have ne: "passes' \<noteq> []"
    proof
      assume "passes' = []"
      then show False using ih(2) True nt ps mpl
        by simp (smt (verit) mult_nonneg_nonneg of_nat_0_le_iff)
    qed
    have "collect_loop M N resample rate add nt s
             = Some (Inr (int (sum_list (map fst passes')) * max_path_length s0), s')"
      using True tbs o(1) ih(1) by (subst collect_loop.simps) (simp add: s2_def)
    then show ?thesis using ih ne
      by (intro exI[of _ passes'] exI[of _ s'] exI[of _ new']) simp
  qed
qed

subsection \<open>Claims about \<open>collect_data\<close>\<close>

lemma count_pass_marks:
  "count_list (concat (map (pass_marks r rate i) passes)) EnvReset = sum_list (map fst passes) \<and>
   count_list (concat (map (pass_marks r rate i) passes)) ClearZ = 0"
proof (induction passes)
  case Nil
  then show ?case by simp
next
  case (Cons p passes)
  have "count_list (obtain_marks r k) ClearZ = 0" for k
    by (induction k) (auto simp: obtain_marks_Suc traj_marks_def, simp add: obtain_marks_def)
  then show ?case using Cons count_obtain_marks[of r "fst p"]
    by (simp add: pass_marks_def)
qed

lemma collect_data_run:
  assumes env: "env_is_vec M" "env_num_envs M = 1"
    and mpl: "0 < max_path_length s"
    and tb: "target_buffers add s = Inr rbs" "None \<notin> set rbs"
    and rs: "resample \<noteq> 0"
    and rate: "rate = Inf \<or> (\<exists>u. rate = Fin u \<and> 1 \<le> u)"
  shows "\<exists>passes s' rest.
           collect_data M N resample rate add s = Some (Inr (), s') \<and>
           N \<le> int (sum_list (map fst passes)) * max_path_length s \<and>
           (0 < N \<longrightarrow> passes \<noteq> []) \<and> (\<forall>p\<in>set passes. 1 \<le> fst p) \<and>
           s' = s\<lparr>trace := trace s', heap := heap s', num_timesteps := num_timesteps s',
                  episode_num := episode_num s',
                  n_env_steps_total := n_env_steps_total s
                      + int (sum_list (map fst passes)) * max_path_length s\<rparr> \<and>
           trace s' = trace s @ ClearZ # rest \<and>
           skeleton rest = concat (map (pass_marks resample rate (task_idx s)) passes) \<and>
           resets_first rest"
proof -
  define s0 where "s0 = log ClearZ s"
  have f0: "rollout_frame s s0" by (simp add: s0_def log_def trace_only_frame)
  have fields: "max_path_length s0 = max_path_length s" "task_idx s0 = task_idx s"
    "n_env_steps_total s0 = n_env_steps_total s"
    using rollout_frame_fields[OF f0] by simp_all
  have tb0: "target_buffers add s0 = Inr rbs" using target_buffers_frame[OF f0] tb(1) by simp
  have mpl0: "0 < max_path_length s0" using mpl fields by simp
  from collect_loop_run[where passes="[]" and new="[]" and s=s0 and ?s0.0=s0 and N=N,
          OF env rs mpl0 rate tb0 tb(2) rollout_frame_refl]
  obtain passes s1 rest where
    r: "collect_loop M N resample rate add 0 s0
             = Some (Inr (int (sum_list (map fst passes)) * max_path_length s0), s1)"
       "N \<le> int (sum_list (map fst passes)) * max_path_length s0"
       "0 < N \<longrightarrow> passes \<noteq> []"
       "rollout_frame s0 s1" "trace s1 = trace s0 @ rest"
       "skeleton rest = concat (map (pass_marks resample rate (task_idx s0)) passes)"
       "resets_first rest" "\<forall>p\<in>set passes. 1 \<le> fst p"
    by (auto simp: skeleton_def resets_first_def)
  define s' where "s' = s1\<lparr>n_env_steps_total := n_env_steps_total s1
                             + int (sum_list (map fst passes)) * max_path_length s0\<rparr>"
  have cd: "collect_data M N resample rate add s = Some (Inr (), s')"
    using r(1) by (simp add: collect_data_def s0_def s'_def)
  have f1: "rollout_frame s s1" using f0 r(4) rollout_frame_trans by blast
  have ne1: "n_env_steps_total s1 = n_env_steps_total s" using rollout_frame_fields[OF f1] by simp
  have eq: "s' = s\<lparr>trace := trace s', heap := heap s', num_timesteps := num_timesteps s',
                  episode_num := episode_num s',
                  n_env_steps_total := n_env_steps_total s
                      + int (sum_list (map fst passes)) * max_path_length s\<rparr>"
    using f1 ne1 fields unfolding rollout_frame_def s'_def by (cases s, cases s1) simp
  have tr: "trace s' = trace s @ ClearZ # rest"
    using r(5) by (simp add: s'_def s0_def log_def)
  show ?thesis
    using cd r(2,3,6,7,8) eq tr fields
    by (intro exI[of _ passes] exI[of _ s'] exI[of _ rest]) simp
qed


















text \<open>
  C5.  Under the same conditions the calls of a \<open>collect_data\<close> run, read without what
  happens inside the rollouts, are: \<open>clear_z\<close> once, first; then for every \<open>obtain_samples\<close>
  call its trajectories, with \<open>sample_z\<close> after the \<open>j\<close>-th one exactly when
  \<open>j % resample == 0\<close>, followed, if and only if \<open>update_posterior_rate\<close> is finite, by
  \<open>sample_context(task_idx)\<close> and \<open>infer_posterior\<close>.
\<close>

theorem collect_data_cadence:
  assumes "env_is_vec M" and "env_num_envs M = 1"
    and "0 < max_path_length s"
    and "target_buffers add s = Inr rbs" and "None \<notin> set rbs"
    and "resample \<noteq> 0"
    and "rate = Inf \<or> (\<exists>u. rate = Fin u \<and> 1 \<le> u)"
  shows "\<exists>passes s' rest. collect_data M N resample rate add s = Some (Inr (), s') \<and>
           trace s' = trace s @ ClearZ # rest \<and> ClearZ \<notin> set rest \<and>
           skeleton (ClearZ # rest) = collect_marks resample rate (task_idx s) passes \<and>
           (\<forall>p\<in>set passes. 1 \<le> fst p)"
proof -
  from collect_data_run[OF assms, of N]
  obtain passes s' rest where
    r: "collect_data M N resample rate add s = Some (Inr (), s')"
       "\<forall>p\<in>set passes. 1 \<le> fst p"
       "trace s' = trace s @ ClearZ # rest"
       "skeleton rest = concat (map (pass_marks resample rate (task_idx s)) passes)"
    by blast
  have "count_list rest ClearZ = 0"
    using count_skeleton[of ClearZ rest] r(4) count_pass_marks by (simp add: inside_def)
  then have nc: "ClearZ \<notin> set rest" by (simp add: count_list_0_iff)
  have "skeleton (ClearZ # rest) = collect_marks resample rate (task_idx s) passes"
    using r(4) by (simp add: collect_marks_def skeleton_def inside_def)
  then show ?thesis using r nc by blast
qed

lemma toy_task_eval:
  "target_buffers True toy_task = Inr [Some 0, Some 2]"
  "target_buffers False toy_task = Inr [Some 0]"
  "max_path_length toy_task = 2" "task_idx toy_task = 0" "n_env_steps_total toy_task = 0"
  "env_is_vec (toy_world 0 0 False)" "env_num_envs (toy_world 0 0 False) = 1"
  by code_simp+





text \<open>
  The count and the steps taken differ as soon as a rollout ends early.  With trajectories
  of at most two steps and three transitions asked for, two rollouts are counted as four
  transitions: when every episode ends at its first step, two steps were taken and written
  to the two buffers; when the step hook cancels the first rollout at its first step, three
  steps were taken and only the two of the second rollout were written.
\<close>

lemma short_rollouts_counted_in_full:
  "run_counts (collect_data (toy_world 1 0 False) 3 1 Inf True toy_task) = Some (4, 2, 2, 4)"
  "run_counts (collect_data (toy_world 0 1 False) 3 1 Inf True toy_task) = Some (4, 3, 3, 4)"
  by code_simp+


theorem collect_data_cadence_witness:
  "env_is_vec (toy_world 0 0 False) \<and> env_num_envs (toy_world 0 0 False) = 1 \<and>
   0 < max_path_length toy_task \<and> target_buffers False toy_task = Inr [Some 0] \<and>
   None \<notin> set [Some (0::nat)] \<and> (2::int) \<noteq> 0 \<and>
   map_option (skeleton \<circ> trace \<circ> snd) (collect_data (toy_world 0 0 False) 3 2 (Fin 1) False toy_task)
     = Some (collect_marks 2 (Fin 1) 0 [(1, []), (1, [])]) \<and>
   (\<exists>passes s' rest.
       collect_data (toy_world 0 0 False) 3 2 (Fin 1) False toy_task = Some (Inr (), s') \<and>
       trace s' = trace toy_task @ ClearZ # rest \<and> ClearZ \<notin> set rest \<and>
       skeleton (ClearZ # rest) = collect_marks 2 (Fin 1) (task_idx toy_task) passes \<and>
       (\<forall>p\<in>set passes. 1 \<le> fst p))"
proof -
  have b: "None \<notin> set [Some (0::nat)]" "(2::int) \<noteq> 0" by simp_all
  have m: "0 < max_path_length toy_task" using toy_task_eval(3) by simp
  have r: "Fin 1 = Inf \<or> (\<exists>u. Fin 1 = Fin u \<and> 1 \<le> u)" by simp
  have e: "map_option (skeleton \<circ> trace \<circ> snd) (collect_data (toy_world 0 0 False) 3 2 (Fin 1) False toy_task)
     = Some (collect_marks 2 (Fin 1) 0 [(1, []), (1, [])])"
    by code_simp
  from collect_data_cadence[OF toy_task_eval(6,7) m toy_task_eval(2) b r, of 3]
  show ?thesis using toy_task_eval b e m by blast
qed

theorem both_quotas_infinite_rejected_witness:
  "Fin 2 \<noteq> Inf \<and>
   map_option fst (obtain_samples (toy_world 0 0 False) (Fin 2) Inf False 1 [Some 0] toy_task)
     = Some (Inr 2) \<and>
   obtain_samples (toy_world 0 0 False) Inf Inf False 1 [Some 0] toy_task
     = Some (Inl BothQuotasInfinite, toy_task) \<and>
   (\<forall>s'. obtain_samples (toy_world 0 0 False) (Fin 2) Inf False 1 [Some 0] toy_task
           \<noteq> Some (Inl BothQuotasInfinite, s'))"
proof -
  have e: "map_option fst (obtain_samples (toy_world 0 0 False) (Fin 2) Inf False 1 [Some 0] toy_task)
     = Some (Inr 2)"
    by code_simp
  from both_quotas_infinite_rejected[of "toy_world 0 0 False" False 1 "[Some 0]" toy_task "Fin 2" Inf]
  show ?thesis using e by simp
qed

theorem rollout_resets_env_once_witness:
  "env_is_vec (toy_world 0 0 False) \<and> env_num_envs (toy_world 0 0 False) = 1 \<and>
   (1::int) \<noteq> 0 \<and> None \<notin> set [Some (0::nat)] \<and> 0 < max_path_length toy_task \<and>
   (\<exists>res s' pre post.
       collect_rollouts (toy_world 0 0 False) 1 2 False (Some [Some 0]) False toy_task = Some (res, s') \<and>
       trace s' = trace toy_task @ pre @ EnvReset # post \<and>
       EnvReset \<notin> set pre \<and> filter is_env_step pre = [] \<and> EnvReset \<notin> set post) \<and>
   (\<exists>k s' new. obtain_samples (toy_world 0 0 False) (Fin 3) Inf False 1 [Some 0] toy_task
                  = Some (Inr (k * max_path_length toy_task), s') \<and>
       trace s' = trace toy_task @ new \<and> 0 \<le> k \<and>
       count_list new OnRolloutStart = nat k \<and> count_list new EnvReset = nat k \<and>
       resets_first new)"
proof -
  have m: "0 < max_path_length toy_task" using toy_task_eval(3) by simp
  have h: "(1::int) \<noteq> 0 \<and> None \<notin> set [Some (0::nat)] \<and>
          ((\<exists>m. Fin 3 = Fin m) \<and> 0 < max_path_length toy_task \<or> (\<exists>t. Inf = Fin t))"
    using m by simp
  from rollout_resets_env_once[OF toy_task_eval(6,7), of 1 2 False "Some [Some 0]" False toy_task
         1 "[Some 0]" "Fin 3" Inf False]
  show ?thesis using h toy_task_eval(6,7) m by blast
qed

section \<open>Verification: the meta-training loop\<close>


lemma learn_keeps_trans: "learn_keeps s s' \<Longrightarrow> learn_keeps s' s'' \<Longrightarrow> learn_keeps s s''"
  by (simp add: learn_keeps_def)

lemma phases_append: "phases (xs @ ys) = phases xs @ phases ys"
  by (simp add: phases_def)

















lemma base_setup_learn_run:
  "\<exists>pre. trace (base_setup_learn M reset s) = trace s @ pre \<and> phases pre = setup_phases reset s \<and>
     learn_keeps s (base_setup_learn M reset s) \<and>
     initial_experience (base_setup_learn M reset s) = initial_experience s \<and>
     n_train_steps_total (base_setup_learn M reset s) = n_train_steps_total s \<and>
     (reset \<longrightarrow> num_timesteps (base_setup_learn M reset s) = 0 \<and>
                 episode_num (base_setup_learn M reset s) = 0)"
  by (cases "has_action_noise s"; cases reset; cases "last_obs s = None")
     (simp_all add: base_setup_learn_def Let_def log_def phases_def setup_phases_def learn_keeps_def)

lemma truncate_last_traj_run:
  assumes "truncate_last_traj reset s = (Inr (), s0)"
  shows "s0 = s\<lparr>heap := heap s0\<rparr>"
  using assms
  by (auto simp: truncate_last_traj_def Let_def split: option.splits if_splits)

lemma truncate_last_traj_none: "self_replay_buffer s = None \<Longrightarrow> truncate_last_traj reset s = (Inr (), s)"
  by (simp add: truncate_last_traj_def)

lemma setup_learn_run:
  assumes "fst (truncate_last_traj reset s) = Inr ()"
  shows "\<exists>s0 pre. setup_learn M reset s = (Inr (), s0) \<and> trace s0 = trace s @ pre \<and>
           phases pre = setup_phases reset s \<and> learn_keeps s s0 \<and>
           initial_experience s0 = initial_experience s \<and>
           n_train_steps_total s0 = n_train_steps_total s \<and>
           (reset \<longrightarrow> num_timesteps s0 = 0 \<and> episode_num s0 = 0)"
proof -
  obtain st where t: "truncate_last_traj reset s = (Inr (), st)"
    using assms by (cases "truncate_last_traj reset s") auto
  have st: "st = s\<lparr>heap := heap st\<rparr>" by (rule truncate_last_traj_run[OF t])
  have f: "trace st = trace s" "last_obs st = last_obs s" "initial_experience st = initial_experience s"
    "n_train_steps_total st = n_train_steps_total s" "learn_keeps s st"
    unfolding learn_keeps_def by (subst st, simp)+
  have sp: "setup_phases reset st = setup_phases reset s" using f(2) by (simp add: setup_phases_def)
  have "setup_learn M reset s = (Inr (), base_setup_learn M reset st)"
    using t by (simp add: setup_learn_def)
  moreover from base_setup_learn_run[of M reset st] obtain pre where
    "trace (base_setup_learn M reset st) = trace st @ pre" "phases pre = setup_phases reset st"
    "learn_keeps st (base_setup_learn M reset st)"
    "initial_experience (base_setup_learn M reset st) = initial_experience st"
    "n_train_steps_total (base_setup_learn M reset st) = n_train_steps_total st"
    "reset \<longrightarrow> num_timesteps (base_setup_learn M reset st) = 0 \<and>
                 episode_num (base_setup_learn M reset st) = 0"
    by blast
  ultimately show ?thesis using f sp learn_keeps_trans[OF f(5)] by auto
qed

text \<open>
  A callback whose \<open>on_training_start\<close> raises, as it does for the default \<open>callback=None\<close>,
  makes \<open>learn\<close> raise after the set-up, before any phase of the meta-iteration.
\<close>

lemma learn_raises_at_training_start:
  assumes "fst (truncate_last_traj reset s) = Inr ()" and "\<forall>tr. on_training_start_res M tr = Raises"
  shows "\<exists>s' new. learn M reset s = Some (Inl HookRaised, s') \<and> trace s' = trace s @ new \<and>
           phases new = setup_phases reset s @ [OnTrainingStart]"
proof -
  from setup_learn_run[OF assms(1), of M]
  obtain s0 pre where
    r: "setup_learn M reset s = (Inr (), s0)" "trace s0 = trace s @ pre"
       "phases pre = setup_phases reset s"
    by blast
  have "learn M reset s = Some (Inl HookRaised, log OnTrainingStart s0)"
    using r(1) assms(2) by (simp add: learn_def Let_def)
  moreover have "trace (log OnTrainingStart s0) = trace s @ (pre @ [OnTrainingStart])"
    using r(2) by (simp add: log_def)
  moreover have "phases (pre @ [OnTrainingStart]) = setup_phases reset s @ [OnTrainingStart]"
    using r(3) by (simp add: phases_append) (simp add: phases_def)
  ultimately show ?thesis by blast
qed


lemma toy_learn_without_callback:
  "map_option fst (learn (toy_world 0 0 True) True toy_task) = Some (Inl HookRaised)"
  "map_option (phases \<circ> trace \<circ> snd) (learn (toy_world 0 0 True) True toy_task)
     = Some [EnvReset, OnTrainingStart]"
  by code_simp+

text \<open>
  Two calls in a row on the toy object, the second one keeping the counters: the second
  call makes neither the reset of the set-up nor the bootstrap.
\<close>

lemma toy_learn_twice:
  "map_option (phases \<circ> trace \<circ> snd)
     (and_then (learn (toy_world 0 0 False) True toy_task) (\<lambda>u. learn (toy_world 0 0 False) False))
   = Some (learn_phases toy_task True [[2], [2]] [(0, 2, [1], [], [1])] [[], []] @
           [OnTrainingStart, RandInt 2, EnvResetTask 0, BufReset 2,
            ClearZ, EnvReset, ClearZ, EnvReset, SampleContext 0,
            RandChoice 2 2, DoTraining [], RandChoice 2 2, DoTraining [], OnTrainingEnd])"
  by code_simp



end
